theory Spec2Isabelle
  imports Complex_Main
begin

section \<open>Individuals and fitness\<close>

text \<open>
  An Individual (\<^verbatim>\<open>creator.Individual\<close>, ga_solver.py line 55) is a Python list of integer
  genes that carries a fitness attribute. The fitness has one objective with weight
  \<^verbatim>\<open>-1.0\<close> (line 52): the smaller the value the better. A fitness without a value is
  invalid; it is \<open>None\<close> here.
\<close>

record individual =
  genes :: "int list"
  fitness :: "int option"

datatype error = ValueError | IndexError | UnboundLocalError

text \<open>
  \<^verbatim>\<open>a.fitness > b.fitness\<close> compares the weighted values as tuples: with the weight
  \<^verbatim>\<open>-1.0\<close> a smaller value is the greater fitness, and the empty tuple of an invalid
  fitness is below every valid one.
\<close>

fun fitness_gt :: "int option \<Rightarrow> int option \<Rightarrow> bool" where
  "fitness_gt (Some a) (Some b) = (a < b)"
| "fitness_gt (Some a) None = True"
| "fitness_gt None b = False"

text \<open>\<^verbatim>\<open>GASolver.np_equal\<close> (ga_solver.py lines 85-87): equality of the two gene lists.\<close>

definition np_equal :: "individual \<Rightarrow> individual \<Rightarrow> bool" where
  "np_equal a b = (genes a = genes b)"

text \<open>
  Lines 16-19 and 76-79 of elitism.py: every individual with an invalid fitness is
  evaluated and its fitness assigned; the number of evaluations is \<^verbatim>\<open>len(invalid_ind)\<close>.
\<close>

definition evaluate_invalid ::
  "(int list \<Rightarrow> int) \<Rightarrow> individual list \<Rightarrow> individual list \<times> nat" where
  "evaluate_invalid ev xs =
     (map (\<lambda>ind. if fitness ind = None then ind\<lparr>fitness := Some (ev (genes ind))\<rparr> else ind) xs,
      length (filter (\<lambda>ind. fitness ind = None) xs))"

section \<open>The hall of fame\<close>

text \<open>
  Modelled from the spec: the class \<^verbatim>\<open>HallOfFame\<close> of the DEAP library, which
  ga_solver.py line 104 instantiates and elitism.py updates, clears and reads, is not part
  of the sources. Section 4.4 of the specification: \<^verbatim>\<open>update(candidates)\<close> inserts any
  candidate whose fitness is better than the current worst archived member (or archive not
  yet full), maintaining best-first order, and a candidate that the equality predicate
  identifies with an archived member is not inserted; \<^verbatim>\<open>clear()\<close> empties the archive;
  the capacity is fixed at construction. The details below are those of the library:
  an empty archive first takes \<^verbatim>\<open>population[0]\<close>; the comparison with the worst member
  reads \<^verbatim>\<open>self[-1]\<close>, which raises on an empty archive of capacity 0; a full archive
  drops its last member before it inserts; a new member goes behind the members that are
  strictly better and before the others.
\<close>

record hall_of_fame =
  maxsize :: int
  items :: "individual list"

definition hof_insert :: "individual \<Rightarrow> individual list \<Rightarrow> individual list" where
  "hof_insert item its =
     takeWhile (\<lambda>h. fitness_gt (fitness h) (fitness item)) its
       @ item # dropWhile (\<lambda>h. fitness_gt (fitness h) (fitness item)) its"

text \<open>The body of the loop of \<^verbatim>\<open>update\<close>, for one candidate.\<close>

definition hof_update_body ::
  "individual \<Rightarrow> individual \<Rightarrow> hall_of_fame \<Rightarrow> error + hall_of_fame" where
  "hof_update_body p0 ind h =
     (if items h = [] \<and> maxsize h \<noteq> 0
        then Inr (h\<lparr>items := hof_insert p0 (items h)\<rparr>)
      else if items h = [] then Inl IndexError
      else if fitness_gt (fitness ind) (fitness (last (items h)))
              \<or> int (length (items h)) < maxsize h
        then (if list_ex (np_equal ind) (items h)
                then Inr h
              else Inr (h\<lparr>items := hof_insert ind
                          (if maxsize h \<le> int (length (items h))
                             then butlast (items h) else items h)\<rparr>))
      else Inr h)"

fun hof_update_loop ::
  "individual \<Rightarrow> individual list \<Rightarrow> hall_of_fame \<Rightarrow> error + hall_of_fame" where
  "hof_update_loop p0 [] h = Inr h"
| "hof_update_loop p0 (ind # rest) h =
     (case hof_update_body p0 ind h of
        Inl e \<Rightarrow> Inl e
      | Inr h1 \<Rightarrow> hof_update_loop p0 rest h1)"

definition hof_update :: "hall_of_fame \<Rightarrow> individual list \<Rightarrow> error + hall_of_fame" where
  "hof_update h pop = (case pop of [] \<Rightarrow> Inr h | p0 # rest \<Rightarrow> hof_update_loop p0 pop h)"

definition hof_clear :: "hall_of_fame \<Rightarrow> hall_of_fame" where
  "hof_clear h = h\<lparr>items := []\<rparr>"

section \<open>Statistics and logbook\<close>

text \<open>
  ga_solver.py lines 99-101 register \<^verbatim>\<open>min\<close> and \<^verbatim>\<open>avg\<close> over the fitness values of the
  population. \<^verbatim>\<open>np.min\<close> raises ValueError on a population without values. The average
  is a floating-point number that the engine stores and never reads; the record below
  leaves it out. The record of generation 0 (elitism.py line 28) has no radiation and no
  shock event; the records of the later generations (line 92) have both.
\<close>

record entry =
  e_gen :: nat
  e_nevals :: nat
  e_min :: int
  e_radiation :: "int option"
  e_shock_event :: "string option"

definition compile_min :: "individual list \<Rightarrow> error + int" where
  "compile_min pop =
     (if pop = [] \<or> list_ex (\<lambda>ind. fitness ind = None) pop then Inl ValueError
      else Inr (min_list (map (\<lambda>ind. the (fitness ind)) pop)))"

section \<open>The toolbox\<close>

text \<open>
  The operators come from outside (ga_solver.py lines 58-71, and \<^verbatim>\<open>algorithms.varAnd\<close>
  of the library); they are parameters here. Those that draw random numbers take the state
  of the random generator and return the new one. \<^verbatim>\<open>evaluate\<close> is the violation count of
  the puzzle.
\<close>

record 'r toolbox =
  populationCreator :: "int \<Rightarrow> 'r \<Rightarrow> individual list \<times> 'r"
  evaluate :: "int list \<Rightarrow> int"
  select :: "individual list \<Rightarrow> int \<Rightarrow> 'r \<Rightarrow> individual list \<times> 'r"
  varAnd :: "individual list \<Rightarrow> real \<Rightarrow> real \<Rightarrow> 'r \<Rightarrow> individual list \<times> 'r"

section \<open>The generational loop of elitism.py\<close>

text \<open>
  The local variables of \<^verbatim>\<open>eaSimpleWithElitism\<close> that change in the loop. \<^verbatim>\<open>offspring\<close> is
  unbound until the first assignment (\<open>None\<close>); \<^verbatim>\<open>last_min\<close> starts as \<^verbatim>\<open>False\<close>
  (\<open>None\<close>). The run is taken without a reporting sink (\<^verbatim>\<open>status_callback=None\<close>), for
  which lines 29-31, 47-48, 55-56, 62-63, 94-95 and 107-108 do nothing.
\<close>

record 'r loop_state =
  population :: "individual list"
  offspring :: "individual list option"
  halloffame :: hall_of_fame
  logbook :: "entry list"
  stuck_count :: int
  last_min :: "int option"
  mutpb :: real
  radiation :: int
  rng :: 'r

text \<open>The arguments and locals that stay fixed in the loop.\<close>

record 'r ea_args =
  toolbox :: "'r toolbox"
  cxpb :: real
  save_mutpb :: real
  stuck :: "int \<times> string option"
  hof_size :: nat

text \<open>Lines 42-48: the radiation counter decays.\<close>

definition decay :: "'r ea_args \<Rightarrow> 'r loop_state \<Rightarrow> 'r loop_state" where
  "decay a s =
     (let rad = max (radiation s - 1) 0
      in if rad = 0 then s\<lparr>radiation := rad, mutpb := save_mutpb a\<rparr>
         else s\<lparr>radiation := rad, stuck_count := 0\<rparr>)"

text \<open>Line 52: the stagnation trigger.\<close>

definition triggered :: "'r ea_args \<Rightarrow> 'r loop_state \<Rightarrow> bool" where
  "triggered a s = (fst (stuck a) < stuck_count s)"

text \<open>Lines 53-60: the Comet Strike.\<close>

definition comet_strike :: "'r ea_args \<Rightarrow> 'r loop_state \<Rightarrow> 'r loop_state" where
  "comet_strike a s =
     (case populationCreator (toolbox a) (int (length (population s)) - 3) (rng s) of
        (fresh, r) \<Rightarrow>
          s\<lparr>offspring := Some (fresh @ take 3 (items (halloffame s))),
            halloffame := hof_clear (halloffame s),
            rng := r\<rparr>)"

text \<open>Lines 61-66: the Radiation Leak.\<close>

definition radiation_leak :: "'r ea_args \<Rightarrow> 'r loop_state \<Rightarrow> 'r loop_state" where
  "radiation_leak a s = s\<lparr>mutpb := 1 / 2, radiation := fst (stuck a)\<rparr>"

text \<open>
  Lines 51-70: the pool of the generation and the label of its shock event. The two
  kinds are tested by two separate \<^verbatim>\<open>if\<close> statements, none of which has an \<^verbatim>\<open>else\<close>.
\<close>

definition next_pool :: "'r ea_args \<Rightarrow> 'r loop_state \<Rightarrow> 'r loop_state \<times> string" where
  "next_pool a s =
     (if triggered a s then
        (let (s1, ev1) = (if snd (stuck a) = Some ''Comet Strike''
                            then (comet_strike a s, ''Comet Strike'') else (s, ''''));
             (s2, ev2) = (if snd (stuck a) = Some ''Radiation Leak''
                            then (radiation_leak a s1, ''Radiation Leak'') else (s1, ev1))
         in (s2\<lparr>stuck_count := 0\<rparr>, ev2))
      else
        (case select (toolbox a) (population s)
                (int (length (population s)) - int (hof_size a)) (rng s) of
           (sel, r) \<Rightarrow> (s\<lparr>offspring := Some sel, rng := r\<rparr>, '''')))"

text \<open>
  Lines 98-110: the stagnation counter. \<^verbatim>\<open>if last_min:\<close> is false for the initial
  \<^verbatim>\<open>False\<close> and for the number 0.
\<close>

definition truthy :: "int option \<Rightarrow> bool" where
  "truthy m = (case m of None \<Rightarrow> False | Some v \<Rightarrow> v \<noteq> 0)"

definition stagnation :: "'r loop_state \<Rightarrow> 'r loop_state" where
  "stagnation s =
     (let new_min = min_list (map e_min (logbook s));
          sc = (if truthy (last_min s)
                  then (if Some new_min = last_min s then stuck_count s + 1 else 0)
                else stuck_count s)
      in s\<lparr>stuck_count := sc, last_min := Some new_min\<rparr>)"

text \<open>
  Lines 73-92: variation, evaluation, elitism, update of the hall of fame, replacement
  of the population, record. An error carries the population as the caller sees it at
  that moment.
\<close>

definition vary_and_record ::
  "'r ea_args \<Rightarrow> nat \<Rightarrow> 'r loop_state \<times> string \<Rightarrow> (error \<times> individual list) + 'r loop_state" where
  "vary_and_record a g sp =
     (case sp of (s, shock) \<Rightarrow>
        (case offspring s of
           None \<Rightarrow> Inl (UnboundLocalError, population s)
         | Some pool \<Rightarrow>
             (case varAnd (toolbox a) pool (cxpb a) (mutpb s) (rng s) of
                (varied, r) \<Rightarrow>
                  (case evaluate_invalid (evaluate (toolbox a)) varied of
                     (evald, n) \<Rightarrow>
                       (let offs = evald @ items (halloffame s)
                        in case hof_update (halloffame s) offs of
                             Inl e \<Rightarrow> Inl (e, population s)
                           | Inr h \<Rightarrow>
                               (case compile_min offs of
                                  Inl e \<Rightarrow> Inl (e, offs)
                                | Inr m \<Rightarrow>
                                    Inr (s\<lparr>population := offs,
                                           offspring := Some offs,
                                           halloffame := h,
                                           logbook := logbook s @
                                             [\<lparr>e_gen = g, e_nevals = n, e_min = m,
                                               e_radiation = Some (radiation s),
                                               e_shock_event = Some shock\<rparr>],
                                           rng := r\<rparr>)))))))"

text \<open>Lines 42-110: one pass of the loop body, for generation \<open>g\<close>.\<close>

definition generation ::
  "'r ea_args \<Rightarrow> nat \<Rightarrow> 'r loop_state \<Rightarrow> (error \<times> individual list) + 'r loop_state" where
  "generation a g s =
     (case vary_and_record a g (next_pool a (decay a s)) of
        Inl e \<Rightarrow> Inl e
      | Inr s' \<Rightarrow> Inr (stagnation s'))"

text \<open>
  Lines 40 and 112-114: \<^verbatim>\<open>for gen in range(1, ngen + 1)\<close> with the early stop. The
  second argument is the generation to run next, the third the number of passes left.
\<close>

fun generations ::
  "'r ea_args \<Rightarrow> nat \<Rightarrow> nat \<Rightarrow> 'r loop_state \<Rightarrow> (error \<times> individual list) + 'r loop_state" where
  "generations a g 0 s = Inr s"
| "generations a g (Suc n) s =
     (case generation a g s of
        Inl e \<Rightarrow> Inl e
      | Inr s' \<Rightarrow> if last_min s' = Some 0 then Inr s' else generations a (Suc g) n s')"

text \<open>
  Lines 12-37 of \<^verbatim>\<open>eaSimpleWithElitism\<close>: generation 0. The evaluation of the population
  comes before the test of the hall of fame, and the test is \<^verbatim>\<open>halloffame is None\<close>.
  The result is the fixed arguments of the loop, with \<^verbatim>\<open>hof_size\<close> read once from the
  hall of fame, and the state in which the loop starts.
\<close>

definition generation_0 ::
  "individual list \<Rightarrow> 'r toolbox \<Rightarrow> real \<Rightarrow> real \<Rightarrow> hall_of_fame option \<Rightarrow>
   int \<times> string option \<Rightarrow> 'r \<Rightarrow> (error \<times> individual list) + ('r ea_args \<times> 'r loop_state)" where
  "generation_0 pop tb cx mu hof stk r =
     (case evaluate_invalid (evaluate tb) pop of
        (pop0, n) \<Rightarrow>
          (case hof of
             None \<Rightarrow> Inl (ValueError, pop0)
           | Some h \<Rightarrow>
               (case hof_update h pop0 of
                  Inl e \<Rightarrow> Inl (e, pop0)
                | Inr h0 \<Rightarrow>
                    (case compile_min pop0 of
                       Inl e \<Rightarrow> Inl (e, pop0)
                     | Inr m \<Rightarrow>
                         Inr (\<lparr>toolbox = tb, cxpb = cx, save_mutpb = mu, stuck = stk,
                               hof_size = length (items h0)\<rparr>,
                              \<lparr>population = pop0, offspring = None, halloffame = h0,
                               logbook = [\<lparr>e_gen = 0, e_nevals = n, e_min = m,
                                           e_radiation = None, e_shock_event = None\<rparr>],
                               stuck_count = 0, last_min = None, mutpb = mu,
                               radiation = 0, rng = r\<rparr>)))))"

text \<open>
  \<^verbatim>\<open>eaSimpleWithElitism\<close>: generation 0, then the loop over \<^verbatim>\<open>range(1, ngen + 1)\<close>. The
  result is the final state: the population and the logbook that the function returns,
  and the hall of fame that it changed in place.
\<close>

definition eaSimpleWithElitism ::
  "individual list \<Rightarrow> 'r toolbox \<Rightarrow> real \<Rightarrow> real \<Rightarrow> int \<Rightarrow> hall_of_fame option \<Rightarrow>
   int \<times> string option \<Rightarrow> 'r \<Rightarrow> (error \<times> individual list) + 'r loop_state" where
  "eaSimpleWithElitism pop tb cx mu ngen hof stk r =
     (case generation_0 pop tb cx mu hof stk r of
        Inl e \<Rightarrow> Inl e
      | Inr (a, s0) \<Rightarrow> generations a 1 (nat ngen) s0)"

section \<open>The solver of ga_solver.py\<close>

text \<open>
  The attributes of a \<^verbatim>\<open>GASolver\<close> that \<^verbatim>\<open>ga_solve\<close> reads and writes. \<^verbatim>\<open>__init__\<close> sets
  \<^verbatim>\<open>solved\<close> to \<^verbatim>\<open>False\<close> (line 34); the attribute \<^verbatim>\<open>solvable\<close> exists only once line 120
  has run. \<open>final_callback\<close> says whether a callback is attached, and \<open>final_calls\<close> lists
  the arguments of its calls.
\<close>

record 'sol ga_solver =
  population_size :: int
  max_generations :: int
  hall_of_fame_size :: int
  p_crossover :: real
  p_mutation :: real
  final_callback :: bool
  solved :: bool
  solvable :: "bool option"
  solution :: "'sol option"
  solver_logbook :: "entry list option"
  final_calls :: "(bool \<times> 'sol option) list"

text \<open>
  \<^verbatim>\<open>GASolver.ga_solve\<close>, lines 94-122. The decoder \<^verbatim>\<open>n_sudoku.get_solution\<close> belongs to the
  puzzle and is a parameter. The result is the solver after the call, with the final
  state of the engine.
\<close>

definition ga_solve ::
  "'r toolbox \<Rightarrow> (int list \<Rightarrow> 'sol) \<Rightarrow> 'sol ga_solver \<Rightarrow> 'r \<Rightarrow>
   (error \<times> individual list) + ('sol ga_solver \<times> 'r loop_state)" where
  "ga_solve tb get_solution self r =
     (case populationCreator tb (population_size self) r of
        (new_population, r1) \<Rightarrow>
          (case eaSimpleWithElitism new_population tb (p_crossover self) (p_mutation self)
                  (max_generations self)
                  (Some \<lparr>maxsize = hall_of_fame_size self, items = []\<rparr>)
                  (50, Some ''chernobyl'') r1 of
             Inl e \<Rightarrow> Inl e
           | Inr s \<Rightarrow>
               (case items (halloffame s) of
                  [] \<Rightarrow> Inl (IndexError, population s)
                | best # others \<Rightarrow>
                    (let self1 = self\<lparr>solution := Some (get_solution (genes best)),
                                      solver_logbook := Some (logbook s)\<rparr>
                     in case fitness best of
                          None \<Rightarrow> Inl (IndexError, population s)
                        | Some v \<Rightarrow>
                            if v = 0 then
                              Inr (self1\<lparr>solved := True,
                                         final_calls :=
                                           (if final_callback self
                                              then final_calls self @ [(True, solution self1)]
                                            else final_calls self)\<rparr>, s)
                            else
                              Inr (self1\<lparr>solvable := Some False,
                                         final_calls :=
                                           (if final_callback self
                                              then final_calls self @ [(False, None)]
                                            else final_calls self)\<rparr>, s)))))"

section \<open>Contracts of the operators, and a concrete toolbox\<close>

text \<open>
  What the library's operators guarantee. \<^verbatim>\<open>initRepeat\<close> builds \<open>n\<close> individuals (none
  for a negative \<open>n\<close>), each with an invalid fitness. \<^verbatim>\<open>selTournament\<close> returns \<open>k\<close>
  members of a non-empty population. \<^verbatim>\<open>varAnd\<close> clones the pool and returns a list of the
  same length, in which an individual is either the unchanged clone at its position or
  has had its fitness deleted.
\<close>

definition toolbox_ok :: "'r toolbox \<Rightarrow> bool" where
  "toolbox_ok tb \<longleftrightarrow>
     (\<forall>n r. length (fst (populationCreator tb n r)) = nat n
            \<and> (\<forall>ind \<in> set (fst (populationCreator tb n r)). fitness ind = None))
   \<and> (\<forall>pop k r. pop \<noteq> [] \<longrightarrow>
            length (fst (select tb pop k r)) = nat k
            \<and> set (fst (select tb pop k r)) \<subseteq> set pop)
   \<and> (\<forall>pool cx mu r. length (fst (varAnd tb pool cx mu r)) = length pool
            \<and> (\<forall>i < length pool. fst (varAnd tb pool cx mu r) ! i = pool ! i
                  \<or> fitness (fst (varAnd tb pool cx mu r) ! i) = None))"

text \<open>
  A toolbox that meets the contracts: the generator numbers its individuals, selection
  walks round the population, and variation happens to change nothing. The state of
  its random generator is the count of the individuals created.
\<close>

definition created :: "nat \<Rightarrow> individual" where
  "created k = \<lparr>genes = [int k], fitness = None\<rparr>"

definition round_toolbox :: "(int list \<Rightarrow> int) \<Rightarrow> nat toolbox" where
  "round_toolbox ev =
     \<lparr>populationCreator = (\<lambda>n r. (map created [r..<r + nat n], r + nat n)),
      evaluate = ev,
      select = (\<lambda>pop k r. (map (\<lambda>j. pop ! (j mod length pop)) [0..<nat k], r)),
      varAnd = (\<lambda>pool cx mu r. (pool, r))\<rparr>"

text \<open>
  A second toolbox that meets the contracts: here variation replaces every individual of
  the pool by a new one with the single gene 9 and an invalid fitness.
\<close>

definition replacing_toolbox :: "(int list \<Rightarrow> int) \<Rightarrow> nat toolbox" where
  "replacing_toolbox ev =
     \<lparr>populationCreator = (\<lambda>n r. (map created [r..<r + nat n], r + nat n)),
      evaluate = ev,
      select = (\<lambda>pop k r. (map (\<lambda>j. pop ! (j mod length pop)) [0..<nat k], r)),
      varAnd = (\<lambda>pool cx mu r. (map (\<lambda>ind. \<lparr>genes = [9], fitness = None\<rparr>) pool, r))\<rparr>"

text \<open>The evaluation of the scenario of the specification: 0 when the first gene is 5.\<close>

definition first_gene_5 :: "int list \<Rightarrow> int" where
  "first_gene_5 g = (case g of [] \<Rightarrow> 1 | x # xs \<Rightarrow> if x = 5 then 0 else 1)"

text \<open>
  A solver as \<^verbatim>\<open>__init__\<close> leaves it, with a callback attached, and two calls of
  \<^verbatim>\<open>ga_solve\<close> on it in a row: the second starts from the solver and from the state of
  the random generator that the first call left.
\<close>

definition fresh_solver :: "int list ga_solver" where
  "fresh_solver =
     \<lparr>population_size = 1, max_generations = 1, hall_of_fame_size = 1,
      p_crossover = 9 / 10, p_mutation = 1 / 5, final_callback = True,
      solved = False, solvable = None, solution = None, solver_logbook = None,
      final_calls = []\<rparr>"

definition first_call ::
  "(error \<times> individual list) + (int list ga_solver \<times> nat loop_state)" where
  "first_call = ga_solve (round_toolbox first_gene_5) (\<lambda>g. g) fresh_solver 5"

definition second_call ::
  "(error \<times> individual list) + (int list ga_solver \<times> nat loop_state)" where
  "second_call =
     ga_solve (round_toolbox first_gene_5) (\<lambda>g. g)
       (fst (projr first_call)) (rng (snd (projr first_call)))"

section \<open>Predicates for the proofs\<close>

text \<open>
  The caching discipline: a valid fitness is the evaluation of the genes. \<open>cached\<close> asks
  for a valid fitness on every individual, \<open>cached_or_invalid\<close> allows invalid ones.
\<close>

definition cached :: "(int list \<Rightarrow> int) \<Rightarrow> individual list \<Rightarrow> bool" where
  "cached ev xs \<longleftrightarrow> (\<forall>ind \<in> set xs. fitness ind = Some (ev (genes ind)))"

definition cached_or_invalid :: "(int list \<Rightarrow> int) \<Rightarrow> individual list \<Rightarrow> bool" where
  "cached_or_invalid ev xs \<longleftrightarrow>
     (\<forall>ind \<in> set xs. fitness ind = None \<or> fitness ind = Some (ev (genes ind)))"

text \<open>A hall of fame that is not empty, holds cached fitnesses and is sorted best first.\<close>

definition archive_ok :: "(int list \<Rightarrow> int) \<Rightarrow> hall_of_fame \<Rightarrow> bool" where
  "archive_ok ev h \<longleftrightarrow>
     items h \<noteq> [] \<and> cached ev (items h) \<and> sorted (map (\<lambda>i. ev (genes i)) (items h))"

text \<open>
  What holds of the state between two generations: the population is not empty and
  evaluated, the hall of fame holds for every member of the population one that is at
  least as good, the last record is that of the population, and \<^verbatim>\<open>offspring\<close> is bound to
  the contents of the population as soon as one generation has run.
\<close>

definition boundary :: "'r ea_args \<Rightarrow> 'r loop_state \<Rightarrow> bool" where
  "boundary a s \<longleftrightarrow>
     population s \<noteq> [] \<and> cached (evaluate (toolbox a)) (population s)
   \<and> archive_ok (evaluate (toolbox a)) (halloffame s)
   \<and> (\<forall>x \<in> set (population s). \<exists>y \<in> set (items (halloffame s)).
          evaluate (toolbox a) (genes y) \<le> evaluate (toolbox a) (genes x))
   \<and> logbook s \<noteq> []
   \<and> e_min (last (logbook s)) = min_list (map (\<lambda>i. evaluate (toolbox a) (genes i)) (population s))
   \<and> (\<forall>e \<in> set (logbook s). e_min e \<in> range (evaluate (toolbox a)))
   \<and> (last_min s = None \<longrightarrow> stuck_count s = 0 \<and> offspring s = None)
   \<and> (last_min s \<noteq> None \<longrightarrow> offspring s = Some (population s))"

section \<open>Evaluation and the hall of fame\<close>

lemma length_evaluate_invalid: "length (fst (evaluate_invalid ev xs)) = length xs"
  by (simp add: evaluate_invalid_def)

lemma cached_evaluate_invalid:
  "cached_or_invalid ev xs \<Longrightarrow> cached ev (fst (evaluate_invalid ev xs))"
  by (auto simp: evaluate_invalid_def cached_def cached_or_invalid_def)

lemma genes_evaluate_invalid:
  "map genes (fst (evaluate_invalid ev xs)) = map genes xs"
  by (simp add: evaluate_invalid_def)

lemma evaluate_invalid_cached_id:
  "cached ev xs \<Longrightarrow> fst (evaluate_invalid ev xs) = xs"
  by (auto simp: evaluate_invalid_def cached_def map_idI)

lemma length_hof_insert: "length (hof_insert x xs) = Suc (length xs)"
proof -
  have "length (takeWhile P xs) + length (dropWhile P xs) = length xs" for P
    by (metis length_append takeWhile_dropWhile_id)
  then show ?thesis by (simp add: hof_insert_def)
qed

lemma set_hof_insert: "set (hof_insert x xs) = insert x (set xs)"
proof -
  have "set (takeWhile P xs) \<union> set (dropWhile P xs) = set xs" for P
    by (metis set_append takeWhile_dropWhile_id)
  then show ?thesis by (auto simp: hof_insert_def)
qed

lemma hof_insert_insort:
  "cached ev (x # xs) \<Longrightarrow> hof_insert x xs = insort_key (\<lambda>i. ev (genes i)) x xs"
  by (induction xs) (auto simp: hof_insert_def cached_def)

lemma sorted_hof_insert:
  assumes "cached ev (x # xs)" "sorted (map (\<lambda>i. ev (genes i)) xs)"
  shows "sorted (map (\<lambda>i. ev (genes i)) (hof_insert x xs))"
  using assms by (simp add: hof_insert_insort sorted_insort_key)

lemma body_maxsize: "hof_update_body p0 ind h = Inr h1 \<Longrightarrow> maxsize h1 = maxsize h"
  by (auto simp: hof_update_body_def split: if_splits)

lemma body_nonempty: "hof_update_body p0 ind h = Inr h1 \<Longrightarrow> items h1 \<noteq> []"
  by (auto simp: hof_update_body_def hof_insert_def split: if_splits)

lemma body_bound:
  "hof_update_body p0 ind h = Inr h1 \<Longrightarrow> 1 \<le> maxsize h \<Longrightarrow>
   int (length (items h)) \<le> maxsize h \<Longrightarrow> int (length (items h1)) \<le> maxsize h"
  by (auto simp: hof_update_body_def length_hof_insert split: if_splits)

lemma body_set:
  "hof_update_body p0 ind h = Inr h1 \<Longrightarrow>
   set (items h1) \<subseteq> insert p0 (insert ind (set (items h)))"
  by (auto simp: hof_update_body_def set_hof_insert split: if_splits dest: in_set_butlastD)

lemma body_returns:
  "items h \<noteq> [] \<or> maxsize h \<noteq> 0 \<Longrightarrow> \<exists>h1. hof_update_body p0 ind h = Inr h1"
  by (auto simp: hof_update_body_def)

lemma cached_subset: "cached ev ys \<Longrightarrow> set xs \<subseteq> set ys \<Longrightarrow> cached ev xs"
  by (auto simp: cached_def)

lemma body_sorted:
  assumes "hof_update_body p0 ind h = Inr h1" "cached ev (p0 # ind # items h)"
    "sorted (map (\<lambda>i. ev (genes i)) (items h))"
  shows "sorted (map (\<lambda>i. ev (genes i)) (items h1))"
proof -
  have b: "sorted (map (\<lambda>i. ev (genes i)) (butlast (items h)))"
    using assms(3) by (simp add: map_butlast sorted_butlast)
  have cb: "cached ev (x # butlast (items h))" if "cached ev (x # items h)" for x
    using that by (auto simp: cached_def dest: in_set_butlastD)
  have c0: "cached ev (p0 # items h)" and c1: "cached ev (ind # items h)"
    using assms(2) by (auto simp: cached_def)
  show ?thesis
    using assms(1,3) b c0 c1 cb[OF c1]
    by (auto simp: hof_update_body_def sorted_hof_insert split: if_splits)
qed

lemma body_keeps:
  assumes "hof_update_body p0 ind h = Inr h1" "cached ev (p0 # ind # items h)"
    "x \<in> set (items h)"
  shows "\<exists>y \<in> set (items h1). ev (genes y) \<le> ev (genes x)"
proof (cases "x \<in> set (items h1)")
  case True
  then show ?thesis by auto
next
  case False
  have ne: "items h \<noteq> []" using assms(3) by auto
  from False assms(1,3) ne have full: "maxsize h \<le> int (length (items h))"
    and ins: "items h1 = hof_insert ind (butlast (items h))"
    by (auto simp: hof_update_body_def set_hof_insert split: if_splits)
  from False ins have "x \<notin> set (butlast (items h))" by (simp add: set_hof_insert)
  with assms(3) ne have xl: "x = last (items h)"
    by (metis append_butlast_last_id set_ConsD rotate1.simps(2) set_rotate1)
  from assms(1) ne full False assms(3)
  have "fitness_gt (fitness ind) (fitness (last (items h)))"
    by (auto simp: hof_update_body_def split: if_splits)
  moreover have "fitness ind = Some (ev (genes ind))" "fitness x = Some (ev (genes x))"
    using assms(2,3) by (auto simp: cached_def)
  ultimately have "ev (genes ind) < ev (genes x)" using xl by simp
  moreover have "ind \<in> set (items h1)" using ins by (simp add: set_hof_insert)
  ultimately show ?thesis by (intro bexI[of _ ind]) simp_all
qed

lemma body_covers:
  assumes "hof_update_body p0 ind h = Inr h1" "cached ev (p0 # ind # items h)"
    "items h = [] \<longrightarrow> ind = p0"
  shows "\<exists>y \<in> set (items h1). ev (genes y) \<le> ev (genes ind)"
proof (cases "ind \<in> set (items h1)")
  case True
  then show ?thesis by auto
next
  case False
  with assms(1,3) have ne: "items h \<noteq> []" and same: "h1 = h"
    by (auto simp: hof_update_body_def set_hof_insert split: if_splits)
  have fi: "fitness ind = Some (ev (genes ind))" using assms(2) by (simp add: cached_def)
  show ?thesis
  proof (cases "list_ex (np_equal ind) (items h)")
    case True
    then obtain y where "y \<in> set (items h)" "genes ind = genes y"
      by (auto simp: list_ex_iff np_equal_def)
    then show ?thesis using same by (intro bexI[of _ y]) simp_all
  next
    case nex: False
    with False assms(1) ne
    have "\<not> fitness_gt (fitness ind) (fitness (last (items h)))"
      by (auto simp: hof_update_body_def set_hof_insert split: if_splits)
    moreover have l: "last (items h) \<in> set (items h)" using ne by simp
    moreover from this have "fitness (last (items h)) = Some (ev (genes (last (items h))))"
      using assms(2) by (simp add: cached_def)
    ultimately have "ev (genes (last (items h))) \<le> ev (genes ind)" using fi by simp
    then show ?thesis using l same by blast
  qed
qed

lemma loop_maxsize: "hof_update_loop p0 xs h = Inr h' \<Longrightarrow> maxsize h' = maxsize h"
  by (induction xs arbitrary: h) (auto split: sum.splits dest: body_maxsize)

lemma loop_nonempty:
  "hof_update_loop p0 xs h = Inr h' \<Longrightarrow> xs \<noteq> [] \<or> items h \<noteq> [] \<Longrightarrow> items h' \<noteq> []"
  by (induction xs arbitrary: h) (auto split: sum.splits dest: body_nonempty)

lemma loop_bound:
  "hof_update_loop p0 xs h = Inr h' \<Longrightarrow> 1 \<le> maxsize h \<Longrightarrow>
   int (length (items h)) \<le> maxsize h \<Longrightarrow> int (length (items h')) \<le> maxsize h"
proof (induction xs arbitrary: h)
  case Nil
  then show ?case by simp
next
  case (Cons x xs)
  from Cons.prems(1) obtain h1 where b: "hof_update_body p0 x h = Inr h1"
    and l: "hof_update_loop p0 xs h1 = Inr h'"
    by (auto split: sum.splits)
  from body_maxsize[OF b] body_bound[OF b Cons.prems(2,3)] Cons.IH[OF l] Cons.prems(2)
  show ?case by simp
qed

lemma loop_set:
  "hof_update_loop p0 xs h = Inr h' \<Longrightarrow>
   set (items h') \<subseteq> insert p0 (set xs \<union> set (items h))"
proof (induction xs arbitrary: h)
  case Nil
  then show ?case by auto
next
  case (Cons x xs)
  from Cons.prems(1) obtain h1 where b: "hof_update_body p0 x h = Inr h1"
    and l: "hof_update_loop p0 xs h1 = Inr h'"
    by (auto split: sum.splits)
  from body_set[OF b] Cons.IH[OF l] show ?case by auto
qed

lemma loop_returns:
  "items h \<noteq> [] \<or> maxsize h \<noteq> 0 \<Longrightarrow> \<exists>h'. hof_update_loop p0 xs h = Inr h'"
proof (induction xs arbitrary: h)
  case Nil
  then show ?case by simp
next
  case (Cons x xs)
  from body_returns[OF Cons.prems] obtain h1 where b: "hof_update_body p0 x h = Inr h1"
    by blast
  from body_nonempty[OF b] Cons.IH[of h1] b show ?case by simp
qed

lemma loop_sorted:
  "hof_update_loop p0 xs h = Inr h' \<Longrightarrow> cached ev (p0 # xs @ items h) \<Longrightarrow>
   sorted (map (\<lambda>i. ev (genes i)) (items h)) \<Longrightarrow>
   sorted (map (\<lambda>i. ev (genes i)) (items h'))"
proof (induction xs arbitrary: h)
  case Nil
  then show ?case by simp
next
  case (Cons x xs)
  from Cons.prems(1) obtain h1 where b: "hof_update_body p0 x h = Inr h1"
    and l: "hof_update_loop p0 xs h1 = Inr h'"
    by (auto split: sum.splits)
  have c: "cached ev (p0 # x # items h)" using Cons.prems(2) by (auto simp: cached_def)
  have c1: "cached ev (p0 # xs @ items h1)"
    using Cons.prems(2) body_set[OF b] by (auto simp: cached_def)
  from Cons.IH[OF l c1 body_sorted[OF b c Cons.prems(3)]] show ?case .
qed

lemma loop_keeps:
  "hof_update_loop p0 xs h = Inr h' \<Longrightarrow> cached ev (p0 # xs @ items h) \<Longrightarrow>
   z \<in> set (items h) \<Longrightarrow> \<exists>y \<in> set (items h'). ev (genes y) \<le> ev (genes z)"
proof (induction xs arbitrary: h z)
  case Nil
  then show ?case by auto
next
  case (Cons x xs)
  from Cons.prems(1) obtain h1 where b: "hof_update_body p0 x h = Inr h1"
    and l: "hof_update_loop p0 xs h1 = Inr h'"
    by (auto split: sum.splits)
  have c: "cached ev (p0 # x # items h)" using Cons.prems(2) by (auto simp: cached_def)
  have c1: "cached ev (p0 # xs @ items h1)"
    using Cons.prems(2) body_set[OF b] by (auto simp: cached_def)
  from body_keeps[OF b c Cons.prems(3)] obtain y1 where
    y1: "y1 \<in> set (items h1)" "ev (genes y1) \<le> ev (genes z)" by blast
  from Cons.IH[OF l c1 y1(1)] obtain y where "y \<in> set (items h')" "ev (genes y) \<le> ev (genes y1)"
    by blast
  with y1(2) show ?case by (intro bexI[of _ y]) simp_all
qed

lemma loop_covers:
  "hof_update_loop p0 xs h = Inr h' \<Longrightarrow> cached ev (p0 # xs @ items h) \<Longrightarrow>
   (items h = [] \<longrightarrow> xs = [] \<or> hd xs = p0) \<Longrightarrow> z \<in> set xs \<Longrightarrow>
   \<exists>y \<in> set (items h'). ev (genes y) \<le> ev (genes z)"
proof (induction xs arbitrary: h)
  case Nil
  then show ?case by auto
next
  case (Cons x xs)
  from Cons.prems(1) obtain h1 where b: "hof_update_body p0 x h = Inr h1"
    and l: "hof_update_loop p0 xs h1 = Inr h'"
    by (auto split: sum.splits)
  have c: "cached ev (p0 # x # items h)" using Cons.prems(2) by (auto simp: cached_def)
  have c1: "cached ev (p0 # xs @ items h1)"
    using Cons.prems(2) body_set[OF b] by (auto simp: cached_def)
  show ?case
  proof (cases "z = x")
    case True
    from Cons.prems(3) have "items h = [] \<longrightarrow> x = p0" by simp
    from body_covers[OF b c this] obtain y1 where
      y1: "y1 \<in> set (items h1)" "ev (genes y1) \<le> ev (genes x)" by blast
    from loop_keeps[OF l c1 y1(1)] obtain y where
      "y \<in> set (items h')" "ev (genes y) \<le> ev (genes y1)" by blast
    with y1(2) True show ?thesis by (intro bexI[of _ y]) simp_all
  next
    case False
    with Cons.prems(4) have zin: "z \<in> set xs" by simp
    have "items h1 = [] \<longrightarrow> xs = [] \<or> hd xs = p0" using body_nonempty[OF b] by simp
    from Cons.IH[OF l c1 this zin] show ?thesis .
  qed
qed

lemma hof_update_cases:
  assumes "hof_update h pop = Inr h'"
  obtains "pop = []" "h' = h"
  | p0 where "pop \<noteq> []" "hd pop = p0" "hof_update_loop p0 pop h = Inr h'"
proof (cases pop)
  case Nil
  with assms that(1) show ?thesis by (simp add: hof_update_def)
next
  case (Cons p0 rest)
  with assms have "hof_update_loop p0 pop h = Inr h'" by (simp add: hof_update_def)
  with Cons that(2)[of p0] show ?thesis by simp
qed

lemma hof_update_maxsize: "hof_update h pop = Inr h' \<Longrightarrow> maxsize h' = maxsize h"
  by (erule hof_update_cases) (simp_all add: loop_maxsize)

lemma hof_update_nonempty: "hof_update h pop = Inr h' \<Longrightarrow> pop \<noteq> [] \<Longrightarrow> items h' \<noteq> []"
  by (erule hof_update_cases) (simp_all add: loop_nonempty)

lemma hof_update_bound:
  "hof_update h pop = Inr h' \<Longrightarrow> 1 \<le> maxsize h \<Longrightarrow>
   int (length (items h)) \<le> maxsize h \<Longrightarrow> int (length (items h')) \<le> maxsize h"
  by (erule hof_update_cases) (simp_all add: loop_bound)

lemma hof_update_set:
  "hof_update h pop = Inr h' \<Longrightarrow> set (items h') \<subseteq> set pop \<union> set (items h)"
proof (erule hof_update_cases)
  fix p0
  assume "pop \<noteq> []" "hd pop = p0" "hof_update_loop p0 pop h = Inr h'"
  from loop_set[OF this(3)] this(1,2) show ?thesis by auto
qed simp

lemma hof_update_returns:
  "items h \<noteq> [] \<or> maxsize h \<noteq> 0 \<Longrightarrow> \<exists>h'. hof_update h pop = Inr h'"
proof (cases pop)
  case Nil
  then show ?thesis by (simp add: hof_update_def)
next
  case (Cons p0 rest)
  assume "items h \<noteq> [] \<or> maxsize h \<noteq> 0"
  from loop_returns[OF this, of p0 pop] Cons show ?thesis by (simp add: hof_update_def)
qed

lemma hof_update_cached:
  "hof_update h pop = Inr h' \<Longrightarrow> cached ev (pop @ items h) \<Longrightarrow> cached ev (items h')"
  using hof_update_set[of h pop h'] by (auto simp: cached_def)

lemma hof_update_sorted:
  "hof_update h pop = Inr h' \<Longrightarrow> cached ev (pop @ items h) \<Longrightarrow>
   sorted (map (\<lambda>i. ev (genes i)) (items h)) \<Longrightarrow>
   sorted (map (\<lambda>i. ev (genes i)) (items h'))"
proof (cases pop)
  case Nil
  assume "hof_update h pop = Inr h'" "sorted (map (\<lambda>i. ev (genes i)) (items h))"
  with Nil show ?thesis by (simp add: hof_update_def)
next
  case (Cons p0 rest)
  assume u: "hof_update h pop = Inr h'" and c: "cached ev (pop @ items h)"
    and s: "sorted (map (\<lambda>i. ev (genes i)) (items h))"
  from u Cons have l: "hof_update_loop p0 pop h = Inr h'" by (simp add: hof_update_def)
  from c Cons have "cached ev (p0 # pop @ items h)" by (auto simp: cached_def)
  from loop_sorted[OF l this s] show ?thesis .
qed

lemma hof_update_covers:
  assumes "hof_update h pop = Inr h'" "cached ev (pop @ items h)"
    "z \<in> set pop \<union> set (items h)"
  shows "\<exists>y \<in> set (items h'). ev (genes y) \<le> ev (genes z)"
proof (cases pop)
  case Nil
  with assms show ?thesis by (auto simp: hof_update_def)
next
  case (Cons p0 rest)
  from assms(1) Cons have l: "hof_update_loop p0 pop h = Inr h'" by (simp add: hof_update_def)
  from assms(2) Cons have c: "cached ev (p0 # pop @ items h)" by (auto simp: cached_def)
  have hd: "items h = [] \<longrightarrow> pop = [] \<or> hd pop = p0" using Cons by simp
  from assms(3) show ?thesis
  proof
    assume "z \<in> set pop"
    from loop_covers[OF l c hd this] show ?thesis .
  next
    assume "z \<in> set (items h)"
    from loop_keeps[OF l c this] show ?thesis .
  qed
qed

section \<open>One generation\<close>

lemma compile_min_Inr:
  assumes "compile_min pop = Inr m"
  shows "pop \<noteq> []" "\<forall>ind \<in> set pop. fitness ind \<noteq> None"
    "m = min_list (map (\<lambda>ind. the (fitness ind)) pop)"
  using assms by (auto simp: compile_min_def list_ex_iff split: if_splits)

lemma compile_min_cached:
  assumes c: "cached ev pop" and ne: "pop \<noteq> []"
  shows "compile_min pop = Inr (min_list (map (\<lambda>i. ev (genes i)) pop))"
proof -
  have eq: "map (\<lambda>ind. the (fitness ind)) pop = map (\<lambda>i. ev (genes i)) pop"
    using c by (auto simp: cached_def)
  have nl: "\<not> list_ex (\<lambda>ind. fitness ind = None) pop"
    using c by (auto simp: cached_def list_ex_iff)
  show ?thesis unfolding compile_min_def eq using ne nl by simp
qed

lemma next_pool_cases:
  obtains (normal) sel r where "\<not> triggered a s"
      "select (toolbox a) (population s) (int (length (population s)) - int (hof_size a)) (rng s) = (sel, r)"
      "next_pool a s = (s\<lparr>offspring := Some sel, rng := r\<rparr>, '''')"
  | (comet) "triggered a s" "snd (stuck a) = Some ''Comet Strike''"
      "next_pool a s = ((comet_strike a s)\<lparr>stuck_count := 0\<rparr>, ''Comet Strike'')"
  | (leak) "triggered a s" "snd (stuck a) = Some ''Radiation Leak''"
      "next_pool a s = ((radiation_leak a s)\<lparr>stuck_count := 0\<rparr>, ''Radiation Leak'')"
  | (other) "triggered a s" "snd (stuck a) \<noteq> Some ''Comet Strike''"
      "snd (stuck a) \<noteq> Some ''Radiation Leak''"
      "next_pool a s = (s\<lparr>stuck_count := 0\<rparr>, '''')"
proof (cases "triggered a s")
  case False
  obtain sel r where
    "select (toolbox a) (population s) (int (length (population s)) - int (hof_size a)) (rng s) = (sel, r)"
    by (cases "select (toolbox a) (population s) (int (length (population s)) - int (hof_size a)) (rng s)")
  with False normal show ?thesis by (simp add: next_pool_def)
next
  case True
  show ?thesis
  proof (cases "snd (stuck a) = Some ''Comet Strike''")
    case c: True
    with True comet show ?thesis by (simp add: next_pool_def)
  next
    case nc: False
    show ?thesis
    proof (cases "snd (stuck a) = Some ''Radiation Leak''")
      case l: True
      with True leak show ?thesis by (simp add: next_pool_def)
    next
      case False
      with True nc other show ?thesis by (simp add: next_pool_def)
    qed
  qed
qed

lemma generation_cases:
  assumes "generation a g s = Inr s'"
  obtains s2 shock pool varied r h m where
    "next_pool a (decay a s) = (s2, shock)"
    "offspring s2 = Some pool"
    "varAnd (toolbox a) pool (cxpb a) (mutpb s2) (rng s2) = (varied, r)"
    "hof_update (halloffame s2)
       (fst (evaluate_invalid (evaluate (toolbox a)) varied) @ items (halloffame s2)) = Inr h"
    "compile_min
       (fst (evaluate_invalid (evaluate (toolbox a)) varied) @ items (halloffame s2)) = Inr m"
    "s' = stagnation
       (s2\<lparr>population := fst (evaluate_invalid (evaluate (toolbox a)) varied) @ items (halloffame s2),
           offspring := Some (fst (evaluate_invalid (evaluate (toolbox a)) varied) @ items (halloffame s2)),
           halloffame := h,
           logbook := logbook s2 @
             [\<lparr>e_gen = g, e_nevals = snd (evaluate_invalid (evaluate (toolbox a)) varied), e_min = m,
               e_radiation = Some (radiation s2), e_shock_event = Some shock\<rparr>],
           rng := r\<rparr>)"
proof -
  obtain s2 shock where np: "next_pool a (decay a s) = (s2, shock)"
    by (cases "next_pool a (decay a s)")
  from assms obtain s1 where v: "vary_and_record a g (s2, shock) = Inr s1"
    and s': "s' = stagnation s1"
    by (auto simp: generation_def np split: sum.splits)
  from v obtain pool where p: "offspring s2 = Some pool"
    by (cases "offspring s2") (simp_all add: vary_and_record_def)
  obtain varied r where va: "varAnd (toolbox a) pool (cxpb a) (mutpb s2) (rng s2) = (varied, r)"
    by (cases "varAnd (toolbox a) pool (cxpb a) (mutpb s2) (rng s2)")
  obtain evald n where ei: "evaluate_invalid (evaluate (toolbox a)) varied = (evald, n)"
    by (cases "evaluate_invalid (evaluate (toolbox a)) varied")
  from v p va ei obtain h where
    u: "hof_update (halloffame s2) (evald @ items (halloffame s2)) = Inr h"
    by (auto simp: vary_and_record_def Let_def split: sum.splits)
  from v p va ei u obtain m where
    c: "compile_min (evald @ items (halloffame s2)) = Inr m"
    by (auto simp: vary_and_record_def Let_def split: sum.splits)
  from v p va ei u c have
    "s1 = s2\<lparr>population := evald @ items (halloffame s2),
           offspring := Some (evald @ items (halloffame s2)),
           halloffame := h,
           logbook := logbook s2 @
             [\<lparr>e_gen = g, e_nevals = n, e_min = m,
               e_radiation = Some (radiation s2), e_shock_event = Some shock\<rparr>],
           rng := r\<rparr>"
    by (auto simp: vary_and_record_def Let_def)
  with that[OF np p va] u c s' ei show ?thesis by simp
qed

lemma generations_invariant:
  assumes "generations a g n s = Inr s'" "P s"
    and "\<And>g s s'. P s \<Longrightarrow> generation a g s = Inr s' \<Longrightarrow> P s'"
  shows "P s'"
  using assms(1,2)
proof (induction n arbitrary: g s)
  case 0
  then show ?case by simp
next
  case (Suc n)
  from Suc.prems(1) obtain s1 where g1: "generation a g s = Inr s1"
    and rest: "s1 = s' \<or> generations a (Suc g) n s1 = Inr s'"
    by (auto split: sum.splits if_splits)
  from assms(3)[OF Suc.prems(2) g1] have p1: "P s1" .
  from rest show ?case
  proof
    assume "s1 = s'" with p1 show ?thesis by simp
  next
    assume "generations a (Suc g) n s1 = Inr s'"
    from Suc.IH[OF this p1] show ?thesis .
  qed
qed

lemma min_list_le: "x \<in> set xs \<Longrightarrow> min_list xs \<le> (x::int)"
  by (metis List.finite_set Min_le empty_iff empty_set min_list_Min)

lemma min_list_in: "xs \<noteq> [] \<Longrightarrow> min_list xs \<in> set (xs::int list)"
  by (metis List.finite_set Min_in min_list_Min set_empty)

lemma decay_fields [simp]:
  "population (decay a s) = population s" "offspring (decay a s) = offspring s"
  "halloffame (decay a s) = halloffame s" "logbook (decay a s) = logbook s"
  "last_min (decay a s) = last_min s" "rng (decay a s) = rng s"
  by (simp_all add: decay_def Let_def)

lemma decay_stuck_count: "stuck_count s = 0 \<Longrightarrow> stuck_count (decay a s) = 0"
  by (simp add: decay_def Let_def)

lemma boundary_decay: "boundary a s \<Longrightarrow> boundary a (decay a s)"
  by (simp add: boundary_def decay_stuck_count)

lemma stagnation_fields [simp]:
  "population (stagnation s) = population s" "offspring (stagnation s) = offspring s"
  "halloffame (stagnation s) = halloffame s" "logbook (stagnation s) = logbook s"
  "rng (stagnation s) = rng s" "mutpb (stagnation s) = mutpb s"
  "radiation (stagnation s) = radiation s"
  "last_min (stagnation s) = Some (min_list (map e_min (logbook s)))"
  by (simp_all add: stagnation_def Let_def)

lemma next_pool_fields:
  assumes "next_pool a s = (s2, shock)"
  shows "population s2 = population s" "logbook s2 = logbook s" "last_min s2 = last_min s"
    "halloffame s2 = (if triggered a s \<and> snd (stuck a) = Some ''Comet Strike''
                      then hof_clear (halloffame s) else halloffame s)"
    "shock = ''Comet Strike'' \<longleftrightarrow> triggered a s \<and> snd (stuck a) = Some ''Comet Strike''"
  using assms
  by (cases rule: next_pool_cases[of a s];
      auto simp: comet_strike_def radiation_leak_def split: prod.splits)+

lemma next_pool_pool:
  assumes b: "boundary a s" and ok: "toolbox_ok (toolbox a)"
    and np: "next_pool a s = (s2, shock)" and p: "offspring s2 = Some pool"
  shows "cached_or_invalid (evaluate (toolbox a)) pool"
proof (cases rule: next_pool_cases[of a s])
  case (normal sel r)
  from b have ne: "population s \<noteq> []" by (simp add: boundary_def)
  from ok ne have
    "set (fst (select (toolbox a) (population s)
        (int (length (population s)) - int (hof_size a)) (rng s))) \<subseteq> set (population s)"
    unfolding toolbox_ok_def by blast
  with normal(2) have "set sel \<subseteq> set (population s)" by simp
  moreover from normal(3) np p have "pool = sel" by simp
  moreover from b have "cached (evaluate (toolbox a)) (population s)" by (simp add: boundary_def)
  ultimately show ?thesis by (auto simp: cached_def cached_or_invalid_def)
next
  case comet
  obtain fresh r where f: "populationCreator (toolbox a) (int (length (population s)) - 3) (rng s) = (fresh, r)"
    by (cases "populationCreator (toolbox a) (int (length (population s)) - 3) (rng s)")
  from ok have "\<forall>ind \<in> set (fst (populationCreator (toolbox a) (int (length (population s)) - 3) (rng s))).
      fitness ind = None"
    unfolding toolbox_ok_def by blast
  with f have fr: "\<forall>ind \<in> set fresh. fitness ind = None" by simp
  from comet(3) np p f have "pool = fresh @ take 3 (items (halloffame s))"
    by (simp add: comet_strike_def)
  moreover from b have "cached (evaluate (toolbox a)) (items (halloffame s))"
    by (simp add: boundary_def archive_ok_def)
  ultimately show ?thesis using fr
    by (auto simp: cached_def cached_or_invalid_def dest: in_set_takeD)
next
  case leak
  with np p have "offspring s = Some pool" by (auto simp: radiation_leak_def)
  with b have "pool = population s" "cached (evaluate (toolbox a)) (population s)"
    by (auto simp: boundary_def)
  then show ?thesis by (auto simp: cached_def cached_or_invalid_def)
next
  case other
  with np p have "offspring s = Some pool" by auto
  with b have "pool = population s" "cached (evaluate (toolbox a)) (population s)"
    by (auto simp: boundary_def)
  then show ?thesis by (auto simp: cached_def cached_or_invalid_def)
qed

lemma varAnd_cached:
  assumes ok: "toolbox_ok tb" and c: "cached_or_invalid ev pool"
    and v: "varAnd tb pool cx mu r = (varied, r')"
  shows "cached_or_invalid ev varied" "length varied = length pool"
proof -
  from ok v have len: "length varied = length pool"
    and el: "\<forall>i < length pool. varied ! i = pool ! i \<or> fitness (varied ! i) = None"
    unfolding toolbox_ok_def by (metis fst_conv)+
  show "length varied = length pool" by (rule len)
  show "cached_or_invalid ev varied"
    unfolding cached_or_invalid_def
  proof
    fix ind assume "ind \<in> set varied"
    then obtain i where i: "i < length varied" "varied ! i = ind" by (auto simp: in_set_conv_nth)
    with el len have "ind = pool ! i \<or> fitness ind = None" by auto
    moreover have "pool ! i \<in> set pool" using i len by simp
    ultimately show "fitness ind = None \<or> fitness ind = Some (ev (genes ind))"
      using c by (auto simp: cached_or_invalid_def)
  qed
qed

lemma generation_step:
  assumes b: "boundary a s" and ok: "toolbox_ok (toolbox a)"
    and g: "generation a g s = Inr s'"
  obtains e where "logbook s' = logbook s @ [e]" "e_gen e = g"
    "e_shock_event e = Some (snd (next_pool a (decay a s)))"
    "boundary a s'"
    "e_shock_event e \<noteq> Some ''Comet Strike'' \<longrightarrow> e_min e \<le> e_min (last (logbook s))"
    "e_shock_event e \<noteq> Some ''Comet Strike'' \<longrightarrow>
       set (items (halloffame s)) \<subseteq> set (population s')"
proof -
  let ?ev = "evaluate (toolbox a)"
  let ?f = "\<lambda>i. ?ev (genes i)"
  from g obtain s2 shock pool varied r h m where
    np: "next_pool a (decay a s) = (s2, shock)"
    and p: "offspring s2 = Some pool"
    and va: "varAnd (toolbox a) pool (cxpb a) (mutpb s2) (rng s2) = (varied, r)"
    and up: "hof_update (halloffame s2)
       (fst (evaluate_invalid ?ev varied) @ items (halloffame s2)) = Inr h"
    and cm: "compile_min (fst (evaluate_invalid ?ev varied) @ items (halloffame s2)) = Inr m"
    and s': "s' = stagnation
       (s2\<lparr>population := fst (evaluate_invalid ?ev varied) @ items (halloffame s2),
           offspring := Some (fst (evaluate_invalid ?ev varied) @ items (halloffame s2)),
           halloffame := h,
           logbook := logbook s2 @
             [\<lparr>e_gen = g, e_nevals = snd (evaluate_invalid ?ev varied), e_min = m,
               e_radiation = Some (radiation s2), e_shock_event = Some shock\<rparr>],
           rng := r\<rparr>)"
    by (rule generation_cases)
  define offs where "offs = fst (evaluate_invalid ?ev varied) @ items (halloffame s2)"
  define e where "e = \<lparr>e_gen = g, e_nevals = snd (evaluate_invalid ?ev varied), e_min = m,
               e_radiation = Some (radiation s2), e_shock_event = Some shock\<rparr>"
  have bd: "boundary a (decay a s)" using b by (rule boundary_decay)
  note f = next_pool_fields[OF np, simplified]
  have hs: "cached ?ev (items (halloffame s))" "sorted (map ?f (items (halloffame s)))"
    using b by (simp_all add: boundary_def archive_ok_def)
  have h2c: "cached ?ev (items (halloffame s2))"
    using hs(1) f(4) by (auto simp: hof_clear_def cached_def)
  have h2s: "sorted (map ?f (items (halloffame s2)))"
    using hs(2) f(4) by (auto simp: hof_clear_def)
  have "cached_or_invalid ?ev pool" by (rule next_pool_pool[OF bd ok np p])
  from varAnd_cached(1)[OF ok this va] have "cached_or_invalid ?ev varied" .
  then have "cached ?ev (fst (evaluate_invalid ?ev varied))" by (rule cached_evaluate_invalid)
  with h2c have co: "cached ?ev offs" by (auto simp: offs_def cached_def)
  from cm have ne: "offs \<noteq> []" by (auto simp: offs_def dest: compile_min_Inr(1))
  from compile_min_cached[OF co ne] cm have m: "m = min_list (map ?f offs)"
    by (simp add: offs_def)
  have coh: "cached ?ev (offs @ items (halloffame s2))" using co h2c by (auto simp: cached_def)
  from up have up': "hof_update (halloffame s2) offs = Inr h" by (simp add: offs_def)
  have hok: "archive_ok ?ev h"
    unfolding archive_ok_def
    using hof_update_nonempty[OF up' ne] hof_update_cached[OF up' coh]
      hof_update_sorted[OF up' coh h2s] by simp
  have cov: "\<forall>x \<in> set offs. \<exists>y \<in> set (items h). ?f y \<le> ?f x"
    using hof_update_covers[OF up' coh] by auto
  have pop': "population s' = offs" "offspring s' = Some offs" "halloffame s' = h"
    "logbook s' = logbook s @ [e]" "last_min s' \<noteq> None"
    using s' f(2) by (simp_all add: offs_def e_def)
  have min_in: "m \<in> range ?ev"
  proof -
    from ne have "m \<in> set (map ?f offs)" unfolding m by (intro min_list_in) simp
    then show ?thesis by auto
  qed
  have bs': "boundary a s'"
    unfolding boundary_def
    using pop' ne co hok cov m min_in b
    by (auto simp: e_def boundary_def)
  have elit: "e_min e \<le> e_min (last (logbook s))"
    and keep: "set (items (halloffame s)) \<subseteq> set (population s')"
    if "e_shock_event e \<noteq> Some ''Comet Strike''"
  proof -
    from that f(4,5) have same: "halloffame s2 = halloffame s" by (auto simp: e_def)
    then show keep: "set (items (halloffame s)) \<subseteq> set (population s')"
      using pop'(1) by (auto simp: offs_def)
    from b have pne: "population s \<noteq> []" by (simp add: boundary_def)
    then have "min_list (map ?f (population s)) \<in> set (map ?f (population s))"
      by (intro min_list_in) simp
    then obtain x where x: "x \<in> set (population s)" "?f x = min_list (map ?f (population s))"
      by auto
    from b x(1) obtain y where y: "y \<in> set (items (halloffame s))" "?f y \<le> ?f x"
      unfolding boundary_def by blast
    from y(1) keep pop'(1) have "y \<in> set offs" by auto
    then have "m \<le> ?f y" unfolding m by (intro min_list_le) simp
    moreover from b have "e_min (last (logbook s)) = min_list (map ?f (population s))"
      by (simp add: boundary_def)
    ultimately show "e_min e \<le> e_min (last (logbook s))" using y(2) x(2) by (simp add: e_def)
  qed
  show ?thesis
    by (rule that[of e]) (use pop' bs' elit keep np in \<open>simp_all add: e_def\<close>)
qed

section \<open>The whole run\<close>

lemma generation_0_Some:
  assumes "generation_0 pop tb cx mu (Some h) stk r = Inr (a, s0)"
  shows "a = \<lparr>toolbox = tb, cxpb = cx, save_mutpb = mu, stuck = stk,
               hof_size = length (items (halloffame s0))\<rparr>"
    "population s0 = fst (evaluate_invalid (evaluate tb) pop)"
    "hof_update h (population s0) = Inr (halloffame s0)"
    "compile_min (population s0) = Inr (e_min (last (logbook s0)))"
    "logbook s0 = [\<lparr>e_gen = 0, e_nevals = snd (evaluate_invalid (evaluate tb) pop),
                    e_min = e_min (last (logbook s0)),
                    e_radiation = None, e_shock_event = None\<rparr>]"
    "stuck_count s0 = 0" "last_min s0 = None" "offspring s0 = None"
    "mutpb s0 = mu" "radiation s0 = 0" "rng s0 = r"
  using assms
  by (auto simp: generation_0_def split: prod.splits sum.splits)

lemma generation_0_boundary:
  assumes g0: "generation_0 pop tb cx mu (Some h) stk r = Inr (a, s0)"
    and e: "items h = []" and c: "cached_or_invalid (evaluate tb) pop"
  shows "boundary a s0"
proof -
  note f = generation_0_Some[OF g0]
  let ?ev = "evaluate tb"
  have tb: "toolbox a = tb" by (subst f(1)) simp
  have cp: "cached ?ev (population s0)" unfolding f(2) using c by (rule cached_evaluate_invalid)
  from f(4) have ne: "population s0 \<noteq> []" by (rule compile_min_Inr(1))
  from compile_min_cached[OF cp ne] f(4)
  have m: "e_min (last (logbook s0)) = min_list (map (\<lambda>i. ?ev (genes i)) (population s0))" by simp
  have ch: "cached ?ev (population s0 @ items h)" using cp e by simp
  have so: "sorted (map (\<lambda>i. ?ev (genes i)) (items h))" using e by simp
  have hok: "archive_ok ?ev (halloffame s0)"
    unfolding archive_ok_def
    using hof_update_nonempty[OF f(3) ne] hof_update_cached[OF f(3) ch]
      hof_update_sorted[OF f(3) ch so] by simp
  have cov: "\<forall>x \<in> set (population s0). \<exists>y \<in> set (items (halloffame s0)).
      ?ev (genes y) \<le> ?ev (genes x)"
    using hof_update_covers[OF f(3) ch] by auto
  have mr: "e_min (last (logbook s0)) \<in> range ?ev"
  proof -
    from ne have "e_min (last (logbook s0)) \<in> set (map (\<lambda>i. ?ev (genes i)) (population s0))"
      unfolding m by (intro min_list_in) simp
    then show ?thesis by auto
  qed
  have lr: "\<forall>e \<in> set (logbook s0). e_min e \<in> range ?ev"
    by (subst f(5)) (use mr in simp)
  have ln: "logbook s0 \<noteq> []" by (subst f(5)) simp
  show ?thesis
    unfolding boundary_def tb
    using ne cp hok cov ln m lr f(6,7,8) by simp
qed

lemma generations_invariant_gen:
  assumes "generations a g n s = Inr s'" "P g s"
    and "\<And>g s s'. P g s \<Longrightarrow> generation a g s = Inr s' \<Longrightarrow> P (Suc g) s'"
  shows "\<exists>g'. P g' s'"
  using assms(1,2)
proof (induction n arbitrary: g s)
  case 0
  then show ?case by auto
next
  case (Suc n)
  from Suc.prems(1) obtain s1 where g1: "generation a g s = Inr s1"
    and rest: "s1 = s' \<or> generations a (Suc g) n s1 = Inr s'"
    by (auto split: sum.splits if_splits)
  from assms(3)[OF Suc.prems(2) g1] have p1: "P (Suc g) s1" .
  from rest show ?case
  proof
    assume "s1 = s'" with p1 show ?thesis by auto
  next
    assume "generations a (Suc g) n s1 = Inr s'"
    from Suc.IH[OF this p1] show ?thesis .
  qed
qed

lemma run_cases:
  assumes "eaSimpleWithElitism pop tb cx mu ngen hof stk r = Inr s"
  obtains a s0 h where "hof = Some h" "generation_0 pop tb cx mu (Some h) stk r = Inr (a, s0)"
    "generations a 1 (nat ngen) s0 = Inr s"
proof -
  from assms obtain a s0 where g0: "generation_0 pop tb cx mu hof stk r = Inr (a, s0)"
    and gs: "generations a 1 (nat ngen) s0 = Inr s"
    by (auto simp: eaSimpleWithElitism_def split: sum.splits)
  from g0 obtain h where "hof = Some h"
    by (cases hof) (auto simp: generation_0_def split: prod.splits)
  with g0 gs that show ?thesis by auto
qed

lemma run_boundary:
  assumes "generation_0 pop tb cx mu (Some h) stk r = Inr (a, s0)"
    "items h = []" "cached_or_invalid (evaluate tb) pop" "toolbox_ok tb"
    "generations a g n s0 = Inr s"
  shows "boundary a s"
proof -
  have tb: "toolbox a = tb" by (subst generation_0_Some(1)[OF assms(1)]) simp
  have b0: "boundary a s0" by (rule generation_0_boundary[OF assms(1,2,3)])
  show ?thesis
  proof (rule generations_invariant[OF assms(5), where P = "boundary a", OF b0])
    fix g s s' assume "boundary a s" "generation a g s = Inr s'"
    with assms(4) tb show "boundary a s'"
      by (auto elim: generation_step)
  qed
qed

section \<open>The claims\<close>

lemma round_toolbox_ok: "toolbox_ok (round_toolbox ev)"
  unfolding toolbox_ok_def round_toolbox_def
  by (auto simp: created_def)

text \<open>
  C7. In every run that returns, whatever the number of generations (so at the end of
  generation 0 and of every later generation), the hall of fame holds at most
  \<^verbatim>\<open>hall_of_fame_size\<close> entries and is not empty, for a capacity of at least 1 and an
  archive that is within its capacity at the start. The capacity never changes, and the
  archive that a Comet Strike clears is empty, so within the bound, until the update of
  the same generation fills it again from the new population.
\<close>

theorem hall_of_fame_bound:
  assumes run: "eaSimpleWithElitism pop tb cx mu ngen (Some h) stk r = Inr s"
    and k: "1 \<le> maxsize h" and b: "int (length (items h)) \<le> maxsize h"
  shows "int (length (items (halloffame s))) \<le> maxsize h
       \<and> maxsize (halloffame s) = maxsize h
       \<and> items (halloffame s) \<noteq> []
       \<and> int (length (items (hof_clear (halloffame s)))) \<le> maxsize h"
proof -
  let ?P = "\<lambda>s. maxsize (halloffame s) = maxsize h
      \<and> int (length (items (halloffame s))) \<le> maxsize h \<and> items (halloffame s) \<noteq> []"
  from run obtain a s0 where g0: "generation_0 pop tb cx mu (Some h) stk r = Inr (a, s0)"
    and gs: "generations a 1 (nat ngen) s0 = Inr s"
    by (auto elim: run_cases)
  note f = generation_0_Some[OF g0]
  from f(4) have ne: "population s0 \<noteq> []" by (rule compile_min_Inr(1))
  have p0: "?P s0"
    using hof_update_maxsize[OF f(3)] hof_update_bound[OF f(3) k b]
      hof_update_nonempty[OF f(3) ne] by simp
  have "?P s"
  proof (rule generations_invariant[OF gs, where P = ?P, OF p0])
    fix g s s' assume p: "?P s" and g: "generation a g s = Inr s'"
    from g obtain s2 shock pool varied r' h' m where
      np: "next_pool a (decay a s) = (s2, shock)"
      and up: "hof_update (halloffame s2)
         (fst (evaluate_invalid (evaluate (toolbox a)) varied) @ items (halloffame s2)) = Inr h'"
      and cm: "compile_min
         (fst (evaluate_invalid (evaluate (toolbox a)) varied) @ items (halloffame s2)) = Inr m"
      and s': "halloffame s' = h'"
      by (rule generation_cases) simp
    from next_pool_fields(4)[OF np] p
    have m2: "maxsize (halloffame s2) = maxsize h"
      and b2: "int (length (items (halloffame s2))) \<le> maxsize h"
      by (auto simp: hof_clear_def)
    from cm have ne: "fst (evaluate_invalid (evaluate (toolbox a)) varied) @ items (halloffame s2) \<noteq> []"
      by (rule compile_min_Inr(1))
    from hof_update_maxsize[OF up] hof_update_bound[OF up] hof_update_nonempty[OF up ne] m2 b2 k s'
    show "?P s'" by simp
  qed
  with k show ?thesis by (simp add: hof_clear_def)
qed

lemma not_isl_Inr: "\<not> isl x \<Longrightarrow> \<exists>y. x = Inr y"
  by (cases x) simp_all

theorem hall_of_fame_bound_witness:
  "\<exists>s. eaSimpleWithElitism (map created [0, 1, 2, 3]) (round_toolbox (\<lambda>g. 1)) (9 / 10) (1 / 5) 4
          (Some \<lparr>maxsize = 2, items = []\<rparr>) (1, Some ''Comet Strike'') 4 = Inr s
      \<and> int (length (items (halloffame s))) \<le> 2 \<and> items (halloffame s) \<noteq> []"
proof -
  have "\<not> isl (eaSimpleWithElitism (map created [0, 1, 2, 3]) (round_toolbox (\<lambda>g. 1)) (9 / 10) (1 / 5) 4
          (Some \<lparr>maxsize = 2, items = []\<rparr>) (1, Some ''Comet Strike'') (4::nat))"
    by code_simp
  from not_isl_Inr[OF this] obtain s where r: "eaSimpleWithElitism (map created [0, 1, 2, 3])
      (round_toolbox (\<lambda>g. 1)) (9 / 10) (1 / 5) 4 (Some \<lparr>maxsize = 2, items = []\<rparr>)
      (1, Some ''Comet Strike'') (4::nat) = Inr s" ..
  from hall_of_fame_bound[OF r] r show ?thesis by simp
qed

text \<open>
  C5. The records of a run are numbered by their generation, and the minimum recorded for
  generation g+1 is at most the minimum recorded for generation g, unless the record of
  generation g+1 carries the shock event Comet Strike: that is the generation whose
  population is formed right after the strike, from new individuals and three archived
  ones that are varied like the rest, with an emptied hall of fame. The operators meet
  their contracts, the hall of fame starts empty, and a fitness that the initial
  population brings along is the evaluation of its genes.
\<close>

theorem elitism_preservation:
  assumes run: "eaSimpleWithElitism pop tb cx mu ngen (Some h) stk r = Inr s"
    and ok: "toolbox_ok tb" and e: "items h = []"
    and c: "cached_or_invalid (evaluate tb) pop"
  shows "\<forall>i. Suc i < length (logbook s) \<longrightarrow>
           e_gen (logbook s ! i) = i \<and> e_gen (logbook s ! Suc i) = Suc i
         \<and> (e_shock_event (logbook s ! Suc i) \<noteq> Some ''Comet Strike'' \<longrightarrow>
              e_min (logbook s ! Suc i) \<le> e_min (logbook s ! i))"
proof -
  from run obtain a s0 where g0: "generation_0 pop tb cx mu (Some h) stk r = Inr (a, s0)"
    and gs: "generations a 1 (nat ngen) s0 = Inr s"
    by (auto elim: run_cases)
  have tb: "toolbox a = tb" by (subst generation_0_Some(1)[OF g0]) simp
  let ?Q = "\<lambda>lb. (\<forall>i < length lb. e_gen (lb ! i) = i)
      \<and> (\<forall>i. Suc i < length lb \<longrightarrow>
            e_shock_event (lb ! Suc i) \<noteq> Some ''Comet Strike'' \<longrightarrow>
            e_min (lb ! Suc i) \<le> e_min (lb ! i))"
  let ?P = "\<lambda>g s. boundary a s \<and> length (logbook s) = g \<and> ?Q (logbook s)"
  have l0: "length (logbook s0) = 1" "e_gen (logbook s0 ! 0) = 0"
    by (subst generation_0_Some(5)[OF g0], simp)+
  have p0: "?P 1 s0"
    using generation_0_boundary[OF g0 e c] l0 by simp
  have "\<exists>g. ?P g s"
  proof (rule generations_invariant_gen[OF gs, where P = ?P, OF p0])
    fix g s s' assume p: "?P g s" and g: "generation a g s = Inr s'"
    from p have b: "boundary a s" and len: "length (logbook s) = g" and q: "?Q (logbook s)"
      by blast+
    from b have ne: "logbook s \<noteq> []" by (simp add: boundary_def)
    from b ok tb g obtain en where en: "logbook s' = logbook s @ [en]" "e_gen en = g"
      "boundary a s'"
      "e_shock_event en \<noteq> Some ''Comet Strike'' \<longrightarrow> e_min en \<le> e_min (last (logbook s))"
      by (auto elim: generation_step)
    have la: "last (logbook s) = logbook s ! (g - 1)" using ne len by (simp add: last_conv_nth)
    have "?Q (logbook s @ [en])"
    proof (intro conjI allI impI)
      fix i assume "i < length (logbook s @ [en])"
      then show "e_gen ((logbook s @ [en]) ! i) = i"
        using q en(2) len by (cases "i < length (logbook s)") (auto simp: nth_append)
    next
      fix i assume i: "Suc i < length (logbook s @ [en])"
        and sh: "e_shock_event ((logbook s @ [en]) ! Suc i) \<noteq> Some ''Comet Strike''"
      show "e_min ((logbook s @ [en]) ! Suc i) \<le> e_min ((logbook s @ [en]) ! i)"
      proof (cases "Suc i < length (logbook s)")
        case True
        with q sh show ?thesis by (simp add: nth_append)
      next
        case False
        with i have si: "Suc i = length (logbook s)" by simp
        with sh have "e_shock_event en \<noteq> Some ''Comet Strike''" by (simp add: nth_append)
        with en(4) have "e_min en \<le> e_min (last (logbook s))" by simp
        moreover from si len have "i = g - 1" "i < length (logbook s)" by auto
        ultimately show ?thesis using si la by (simp add: nth_append)
      qed
    qed
    with en(1,3) len show "?P (Suc g) s'" by simp
  qed
  then show ?thesis by auto
qed

theorem elitism_preservation_witness:
  "\<exists>s. eaSimpleWithElitism (map created [5, 3, 7, 4]) (round_toolbox hd) (9 / 10) (1 / 5) 5
          (Some \<lparr>maxsize = 2, items = []\<rparr>) (1, Some ''Radiation Leak'') 4 = Inr s
      \<and> e_gen (logbook s ! 4) = 4
      \<and> e_min (logbook s ! 4) \<le> e_min (logbook s ! 3)"
proof -
  let ?run = "eaSimpleWithElitism (map created [5, 3, 7, 4]) (round_toolbox hd) (9 / 10) (1 / 5) 5
          (Some \<lparr>maxsize = 2, items = []\<rparr>) (1, Some ''Radiation Leak'') (4::nat)"
  have q: "case ?run of Inl x \<Rightarrow> False
           | Inr s \<Rightarrow> Suc 3 < length (logbook s)
               \<and> e_shock_event (logbook s ! Suc 3) \<noteq> Some ''Comet Strike''"
    by code_simp
  then have "\<not> isl ?run" by (auto split: sum.splits)
  from not_isl_Inr[OF this] obtain s where r: "?run = Inr s" ..
  from q r have h: "Suc 3 < length (logbook s)"
    "e_shock_event (logbook s ! Suc 3) \<noteq> Some ''Comet Strike''" by simp_all
  have c: "cached_or_invalid (evaluate (round_toolbox hd)) (map created [5, 3, 7, 4])"
    by (simp add: cached_or_invalid_def created_def)
  from elitism_preservation[OF r round_toolbox_ok _ c, THEN spec, of 3] h
  have "e_gen (logbook s ! Suc 3) = Suc 3 \<and> e_min (logbook s ! Suc 3) \<le> e_min (logbook s ! 3)"
    by simp
  with r show ?thesis by simp
qed

text \<open>
  The exception is needed for the generation of the strike itself, and for no other: with
  a variation that replaces the whole pool, the minimum goes from 3 to 9 in the record
  that carries the Comet Strike, since the three archived members are varied with the rest
  and the emptied hall of fame adds nothing back; the generation after it does not regress.
\<close>

lemma replacing_toolbox_ok: "toolbox_ok (replacing_toolbox ev)"
  unfolding toolbox_ok_def replacing_toolbox_def
  by (auto simp: created_def)

lemma comet_strike_regression:
  "\<not> isl (eaSimpleWithElitism (map created [5, 3, 7, 4]) (replacing_toolbox hd) (9 / 10) (1 / 5) 5
            (Some \<lparr>maxsize = 2, items = []\<rparr>) (1, Some ''Comet Strike'') (4::nat))
   \<and> map e_min (logbook (projr
          (eaSimpleWithElitism (map created [5, 3, 7, 4]) (replacing_toolbox hd) (9 / 10) (1 / 5) 5
            (Some \<lparr>maxsize = 2, items = []\<rparr>) (1, Some ''Comet Strike'') (4::nat))))
       = [3, 3, 3, 3, 9, 9]
   \<and> map e_shock_event (logbook (projr
          (eaSimpleWithElitism (map created [5, 3, 7, 4]) (replacing_toolbox hd) (9 / 10) (1 / 5) 5
            (Some \<lparr>maxsize = 2, items = []\<rparr>) (1, Some ''Comet Strike'') (4::nat))))
       = [None, Some '''', Some '''', Some '''', Some ''Comet Strike'', Some '''']"
  by code_simp

lemma next_pool_stuck_count:
  assumes "next_pool a s = (s2, shock)"
  shows "stuck_count s2 = (if triggered a s then 0 else stuck_count s)"
  using assms
  by (cases rule: next_pool_cases[of a s]) auto

lemma generation_last_min:
  assumes "generation a g s = Inr s'"
  shows "last_min s' = Some (min_list (map e_min (logbook s')))"
  using assms by (rule generation_cases) simp

lemma generations_pos:
  assumes "generations a g n s0 = Inr s" "0 < n"
  shows "last_min s = Some (min_list (map e_min (logbook s)))"
proof -
  from assms(2) obtain k where n: "n = Suc k" by (cases n) auto
  from assms(1) n obtain s1 where g1: "generation a g s0 = Inr s1"
    and rest: "s1 = s \<or> generations a (Suc g) k s1 = Inr s"
    by (auto split: sum.splits if_splits)
  let ?P = "\<lambda>s. last_min s = Some (min_list (map e_min (logbook s)))"
  have p1: "?P s1" using g1 by (rule generation_last_min)
  from rest show ?thesis
  proof
    assume "s1 = s" with p1 show ?thesis by simp
  next
    assume "generations a (Suc g) k s1 = Inr s"
    then show ?thesis
      by (rule generations_invariant[where P = ?P, OF _ p1]) (rule generation_last_min)
  qed
qed

lemma generations_stop:
  assumes "generations a g n s0 = Inr s" "0 < n" "last_min s = Some 0"
  shows "generations a g (n + k) s0 = Inr s"
  using assms
proof (induction n arbitrary: g s0)
  case 0
  then show ?case by simp
next
  case (Suc n)
  from Suc.prems(1) obtain s1 where g1: "generation a g s0 = Inr s1"
    by (auto split: sum.splits)
  show ?case
  proof (cases "last_min s1 = Some 0")
    case True
    with g1 Suc.prems(1) show ?thesis by simp
  next
    case False
    with g1 Suc.prems(1) have r: "generations a (Suc g) n s1 = Inr s" by simp
    have "0 < n"
    proof (rule ccontr)
      assume "\<not> 0 < n"
      with r have "s1 = s" by simp
      with False Suc.prems(3) show False by simp
    qed
    from Suc.IH[OF r this Suc.prems(3)] g1 False show ?thesis by simp
  qed
qed

lemma generation_returns:
  assumes b: "boundary a s" and ok: "toolbox_ok (toolbox a)"
    and np: "next_pool a (decay a s) = (s2, shock)" and p: "offspring s2 = Some pool"
    and h: "halloffame s2 = halloffame s"
  shows "\<exists>s'. generation a g s = Inr s'"
proof -
  let ?ev = "evaluate (toolbox a)"
  obtain varied r where va: "varAnd (toolbox a) pool (cxpb a) (mutpb s2) (rng s2) = (varied, r)"
    by (cases "varAnd (toolbox a) pool (cxpb a) (mutpb s2) (rng s2)")
  obtain evald n where ei: "evaluate_invalid ?ev varied = (evald, n)"
    by (cases "evaluate_invalid ?ev varied")
  have bd: "boundary a (decay a s)" using b by (rule boundary_decay)
  have "cached_or_invalid ?ev pool" by (rule next_pool_pool[OF bd ok np p])
  from varAnd_cached(1)[OF ok this va] have "cached_or_invalid ?ev varied" .
  then have "cached ?ev (fst (evaluate_invalid ?ev varied))" by (rule cached_evaluate_invalid)
  with ei have ce: "cached ?ev evald" by simp
  from b have hn: "items (halloffame s) \<noteq> []" and hc: "cached ?ev (items (halloffame s))"
    by (simp_all add: boundary_def archive_ok_def)
  from ce hc have co: "cached ?ev (evald @ items (halloffame s))" by (auto simp: cached_def)
  from hn have ne: "evald @ items (halloffame s) \<noteq> []" by simp
  from hof_update_returns[of "halloffame s" "evald @ items (halloffame s)"] hn
  obtain h' where up: "hof_update (halloffame s) (evald @ items (halloffame s)) = Inr h'" by blast
  note cm = compile_min_cached[OF co ne]
  show ?thesis
    by (simp add: generation_def np vary_and_record_def p va ei h up cm Let_def)
qed

lemma best_is_zero:
  assumes b: "boundary a s" and nn: "\<forall>g. 0 \<le> evaluate (toolbox a) g"
    and z: "\<exists>ind \<in> set (population s). fitness ind = Some 0"
  shows "fitness (hd (items (halloffame s))) = Some 0"
    "e_min (last (logbook s)) = 0"
    "min_list (map e_min (logbook s)) = 0"
proof -
  let ?ev = "evaluate (toolbox a)"
  let ?f = "\<lambda>i. ?ev (genes i)"
  from z obtain x where x: "x \<in> set (population s)" "fitness x = Some 0" by blast
  from b x have fx: "?f x = 0" by (auto simp: boundary_def cached_def)
  from b x(1) obtain y where y: "y \<in> set (items (halloffame s))" "?f y \<le> ?f x"
    unfolding boundary_def by blast
  from b have hn: "items (halloffame s) \<noteq> []" and hc: "cached ?ev (items (halloffame s))"
    and hs: "sorted (map ?f (items (halloffame s)))"
    by (simp_all add: boundary_def archive_ok_def)
  from hn obtain t ts where ts: "items (halloffame s) = t # ts" by (cases "items (halloffame s)") auto
  from hs y(1) ts have "?f t \<le> ?f y" by auto
  with y(2) fx nn have "?f t = 0" by (metis order_antisym order_trans)
  moreover from hc ts have "fitness t = Some (?f t)" by (simp add: cached_def)
  ultimately show "fitness (hd (items (halloffame s))) = Some 0" using ts by simp
  from b have pne: "population s \<noteq> []"
    and lm: "e_min (last (logbook s)) = min_list (map ?f (population s))"
    and ln: "logbook s \<noteq> []" and lr: "\<forall>e \<in> set (logbook s). e_min e \<in> range ?ev"
    by (simp_all add: boundary_def)
  have "min_list (map ?f (population s)) \<le> ?f x" using x(1) by (intro min_list_le) simp
  moreover have "min_list (map ?f (population s)) \<in> set (map ?f (population s))"
    using pne by (intro min_list_in) simp
  then have "0 \<le> min_list (map ?f (population s))" using nn by auto
  ultimately show l0: "e_min (last (logbook s)) = 0" using lm fx by simp
  have "min_list (map e_min (logbook s)) \<le> e_min (last (logbook s))"
    using ln by (intro min_list_le) simp
  moreover have "min_list (map e_min (logbook s)) \<in> set (map e_min (logbook s))"
    using ln by (intro min_list_in) simp
  then have "0 \<le> min_list (map e_min (logbook s))" using lr nn by auto
  ultimately show "min_list (map e_min (logbook s)) = 0" using l0 by simp
qed

lemma case_sum_FalseE:
  assumes "case x of Inl e \<Rightarrow> False | Inr y \<Rightarrow> P y"
  obtains y where "x = Inr y" "P y"
  using assms by (cases x) simp_all

text \<open>
  C6. Take the state at the end of any generation of a run (or at the end of generation
  0), not stopped by a minimum of 0, and run the next generation. Then \<^verbatim>\<open>last_min\<close> is the
  minimum of the \<^verbatim>\<open>min\<close> column of the whole logbook, the new record included. The
  counter is one more than it was when the pool was chosen if that minimum equals the
  previous \<^verbatim>\<open>last_min\<close> and \<^verbatim>\<open>last_min\<close> had been set; it is 0 otherwise, the first
  comparison included.
\<close>

theorem stagnation_counting:
  assumes g0: "generation_0 pop tb cx mu (Some h) stk r = Inr (a, s0)"
    and gs: "generations a 1 n s0 = Inr s"
    and nz: "last_min s \<noteq> Some 0"
    and g: "generation a g s = Inr s'"
  shows "last_min s' = Some (min_list (map e_min (logbook s')))
       \<and> stuck_count s' =
           (if last_min s \<noteq> None \<and> last_min s' = last_min s
              then stuck_count (fst (next_pool a (decay a s))) + 1 else 0)"
proof -
  let ?P = "\<lambda>s. last_min s = None \<longrightarrow> stuck_count s = 0"
  have p0: "?P s0" using generation_0_Some(6)[OF g0] by simp
  have ps: "?P s"
  proof (rule generations_invariant[OF gs, where P = ?P, OF p0])
    fix g s s' assume "generation a g s = Inr s'"
    from generation_last_min[OF this] show "?P s'" by simp
  qed
  from g obtain s2 shock pool varied r' h' m where
    np: "next_pool a (decay a s) = (s2, shock)"
    and s': "s' = stagnation
       (s2\<lparr>population := fst (evaluate_invalid (evaluate (toolbox a)) varied) @ items (halloffame s2),
           offspring := Some (fst (evaluate_invalid (evaluate (toolbox a)) varied) @ items (halloffame s2)),
           halloffame := h',
           logbook := logbook s2 @
             [\<lparr>e_gen = g, e_nevals = snd (evaluate_invalid (evaluate (toolbox a)) varied), e_min = m,
               e_radiation = Some (radiation s2), e_shock_event = Some shock\<rparr>],
           rng := r'\<rparr>)"
    by (rule generation_cases)
  have lm2: "last_min s2 = last_min s" using next_pool_fields(3)[OF np] by simp
  have lm': "last_min s' = Some (min_list (map e_min (logbook s')))"
    using g by (rule generation_last_min)
  show ?thesis
  proof (cases "last_min s")
    case None
    with ps have "stuck_count s = 0" by simp
    then have "stuck_count (decay a s) = 0" by (rule decay_stuck_count)
    with next_pool_stuck_count[OF np] have "stuck_count s2 = 0" by simp
    with None lm2 lm' s' show ?thesis by (simp add: stagnation_def truthy_def Let_def)
  next
    case (Some v)
    with nz have "v \<noteq> 0" by simp
    with Some lm2 lm' s' np show ?thesis
      by (auto simp: stagnation_def truthy_def Let_def)
  qed
qed

theorem stagnation_counting_witness:
  "\<exists>a s0 s s'.
      generation_0 (map created [5, 3, 7, 4]) (round_toolbox hd) (9 / 10) (1 / 5)
        (Some \<lparr>maxsize = 2, items = []\<rparr>) (1, Some ''Radiation Leak'') 4 = Inr (a, s0)
    \<and> generations a 1 2 s0 = Inr s \<and> generation a 3 s = Inr s'
    \<and> last_min s' = Some (min_list (map e_min (logbook s')))
    \<and> stuck_count s' = stuck_count (fst (next_pool a (decay a s))) + 1"
proof -
  let ?g0 = "generation_0 (map created [5, 3, 7, 4]) (round_toolbox hd) (9 / 10) (1 / 5)
        (Some \<lparr>maxsize = 2, items = []\<rparr>) (1, Some ''Radiation Leak'') (4::nat)"
  let ?Q3 = "\<lambda>s s'. last_min s \<noteq> Some 0 \<and> last_min s \<noteq> None \<and> last_min s' = last_min s"
  let ?Q2 = "\<lambda>a s. case generation a 3 s of Inl x \<Rightarrow> False | Inr s' \<Rightarrow> ?Q3 s s'"
  let ?Q1 = "\<lambda>as. case generations (fst as) 1 2 (snd as) of Inl x \<Rightarrow> False
                    | Inr s \<Rightarrow> ?Q2 (fst as) s"
  have "case ?g0 of Inl x \<Rightarrow> False | Inr as \<Rightarrow> ?Q1 as"
    by code_simp
  then obtain as where f1: "?g0 = Inr as" and q1: "?Q1 as"
    by (rule case_sum_FalseE)
  from q1 obtain s where f2: "generations (fst as) 1 2 (snd as) = Inr s" and q2: "?Q2 (fst as) s"
    by (rule case_sum_FalseE)
  from q2 obtain s' where f3: "generation (fst as) 3 s = Inr s'" and q3: "?Q3 s s'"
    by (rule case_sum_FalseE)
  from f1 have f1': "?g0 = Inr (fst as, snd as)" by simp
  from stagnation_counting[OF f1' f2 _ f3] q3
  have "last_min s' = Some (min_list (map e_min (logbook s')))
    \<and> stuck_count s' = stuck_count (fst (next_pool (fst as) (decay (fst as) s))) + 1"
    by simp
  with f1' f2 f3 show ?thesis by blast
qed

text \<open>
  C9. Take the state at the end of generation \<open>n \<ge> 1\<close> of a run and a kind other than
  Comet Strike (Radiation Leak, or the \<^verbatim>\<open>'chernobyl'\<close> of ga_solver.py). If the
  stagnation trigger fires in the next generation, the selection operator is not called:
  the random generator reaches \<^verbatim>\<open>varAnd\<close> unchanged, the pool is the list \<^verbatim>\<open>offspring\<close> of
  the generation before, whose contents equal the current population, it is varied and
  evaluated, and the items of the hall of fame are appended. The generation returns, and
  its population is longer than the previous one by the number of archived items.
\<close>

theorem stale_offspring_reuse:
  assumes g0: "generation_0 pop tb cx mu (Some h) stk r = Inr (a, s0)"
    and e: "items h = []" and c: "cached_or_invalid (evaluate tb) pop"
    and ok: "toolbox_ok tb"
    and gs: "generations a 1 n s0 = Inr s" and n: "0 < n"
    and tr: "triggered a (decay a s)" and k: "snd stk \<noteq> Some ''Comet Strike''"
  shows "\<exists>s2 shock varied r' s'.
           next_pool a (decay a s) = (s2, shock)
         \<and> offspring s2 = Some (population s) \<and> rng s2 = rng s
         \<and> halloffame s2 = halloffame s
         \<and> varAnd tb (population s) cx (mutpb s2) (rng s) = (varied, r')
         \<and> generation a g s = Inr s'
         \<and> population s' = fst (evaluate_invalid (evaluate tb) varied) @ items (halloffame s)
         \<and> length (population s') = length (population s) + length (items (halloffame s))"
proof -
  have a: "toolbox a = tb" "cxpb a = cx" "stuck a = stk"
    by (subst generation_0_Some(1)[OF g0], simp)+
  have b: "boundary a s" by (rule run_boundary[OF g0 e c ok gs])
  from generations_pos[OF gs n] b have off: "offspring s = Some (population s)"
    by (simp add: boundary_def)
  obtain s2 shock where np: "next_pool a (decay a s) = (s2, shock)"
    by (cases "next_pool a (decay a s)")
  from tr k a(3) np have s2: "offspring s2 = offspring s" "rng s2 = rng s"
    "halloffame s2 = halloffame s"
    by (cases rule: next_pool_cases[of a "decay a s"]; auto simp: radiation_leak_def)+
  from s2(1) off have p: "offspring s2 = Some (population s)" by simp
  from ok a(1) have ok': "toolbox_ok (toolbox a)" by simp
  from generation_returns[OF b ok' np p s2(3)] obtain s' where
    g: "generation a g s = Inr s'" by blast
  from g obtain s2' shock' pool varied r' h' m where
    np': "next_pool a (decay a s) = (s2', shock')"
    and p': "offspring s2' = Some pool"
    and va: "varAnd (toolbox a) pool (cxpb a) (mutpb s2') (rng s2') = (varied, r')"
    and pop': "population s' =
       fst (evaluate_invalid (evaluate (toolbox a)) varied) @ items (halloffame s2')"
    by (rule generation_cases) simp
  from np np' have eq: "s2' = s2" by simp
  with p p' have pool: "pool = population s" by simp
  from va eq pool s2(2) a have va': "varAnd tb (population s) cx (mutpb s2) (rng s) = (varied, r')"
    by simp
  from pop' eq s2(3) a(1) have pop: "population s' =
      fst (evaluate_invalid (evaluate tb) varied) @ items (halloffame s)" by simp
  have "cached_or_invalid (evaluate tb) (population s)"
    using b a(1) by (auto simp: boundary_def cached_def cached_or_invalid_def)
  from varAnd_cached(2)[OF ok this va'] have "length varied = length (population s)" .
  with pop have len: "length (population s') = length (population s) + length (items (halloffame s))"
    by (simp add: length_evaluate_invalid)
  from np p s2(2,3) va' g pop len show ?thesis by blast
qed

theorem stale_offspring_reuse_witness:
  "\<exists>a s0 s s'.
      generation_0 (map created [5, 3, 7, 4]) (round_toolbox hd) (9 / 10) (1 / 5)
        (Some \<lparr>maxsize = 2, items = []\<rparr>) (1, Some ''chernobyl'') 4 = Inr (a, s0)
    \<and> generations a 1 3 s0 = Inr s \<and> triggered a (decay a s)
    \<and> generation a 4 s = Inr s'
    \<and> length (population s') = length (population s) + length (items (halloffame s))"
proof -
  let ?g0 = "generation_0 (map created [5, 3, 7, 4]) (round_toolbox hd) (9 / 10) (1 / 5)
        (Some \<lparr>maxsize = 2, items = []\<rparr>) (1, Some ''chernobyl'') (4::nat)"
  let ?Q2 = "\<lambda>a s. triggered a (decay a s)"
  let ?Q1 = "\<lambda>as. case generations (fst as) 1 3 (snd as) of Inl x \<Rightarrow> False
                    | Inr s \<Rightarrow> ?Q2 (fst as) s"
  have "case ?g0 of Inl x \<Rightarrow> False | Inr as \<Rightarrow> ?Q1 as"
    by code_simp
  then obtain as where f1: "?g0 = Inr as" and q1: "?Q1 as"
    by (rule case_sum_FalseE)
  from q1 obtain s where f2: "generations (fst as) 1 3 (snd as) = Inr s" and q2: "?Q2 (fst as) s"
    by (rule case_sum_FalseE)
  from f1 have f1': "?g0 = Inr (fst as, snd as)" by simp
  have c: "cached_or_invalid (evaluate (round_toolbox hd)) (map created [5, 3, 7, 4])"
    by (simp add: cached_or_invalid_def created_def)
  from stale_offspring_reuse[OF f1' _ c round_toolbox_ok f2 _ q2, of 4]
  obtain s' where "generation (fst as) 4 s = Inr s'"
    "length (population s') = length (population s) + length (items (halloffame s))"
    by auto
  with f1' f2 q2 show ?thesis by blast
qed

lemma first_generation_zero:
  assumes b: "boundary a s0" and ok: "toolbox_ok (toolbox a)"
    and nn: "\<forall>g. 0 \<le> evaluate (toolbox a) g"
    and z: "\<exists>ind \<in> set (population s0). fitness ind = Some 0"
    and sc: "stuck_count s0 = 0" and th: "0 \<le> fst (stuck a)"
  shows "\<exists>s1 e. generation a g s0 = Inr s1 \<and> logbook s1 = logbook s0 @ [e] \<and> e_gen e = g
           \<and> last_min s1 = Some 0 \<and> fitness (hd (items (halloffame s1))) = Some 0"
proof -
  have "stuck_count (decay a s0) = 0" using sc by (rule decay_stuck_count)
  with th have nt: "\<not> triggered a (decay a s0)" by (simp add: triggered_def)
  obtain s2 shock where np: "next_pool a (decay a s0) = (s2, shock)"
    by (cases "next_pool a (decay a s0)")
  from nt np obtain sel where p: "offspring s2 = Some sel"
    by (cases rule: next_pool_cases[of a "decay a s0"]) auto
  from nt next_pool_fields(4,5)[OF np] have h: "halloffame s2 = halloffame s0"
    and sh: "shock \<noteq> ''Comet Strike''" by simp_all
  from generation_returns[OF b ok np p h] obtain s1 where g1: "generation a g s0 = Inr s1"
    by blast
  from generation_step[OF b ok g1] obtain e where e: "logbook s1 = logbook s0 @ [e]"
    "e_gen e = g" "e_shock_event e = Some (snd (next_pool a (decay a s0)))" "boundary a s1"
    "e_shock_event e \<noteq> Some ''Comet Strike'' \<longrightarrow>
       set (items (halloffame s0)) \<subseteq> set (population s1)"
    by blast
  from e(3,5) np sh have sub: "set (items (halloffame s0)) \<subseteq> set (population s1)" by simp
  from b have hn: "items (halloffame s0) \<noteq> []" by (simp add: boundary_def archive_ok_def)
  then have "hd (items (halloffame s0)) \<in> set (items (halloffame s0))" by simp
  with sub best_is_zero(1)[OF b nn z]
  have z1: "\<exists>ind \<in> set (population s1). fitness ind = Some 0" by blast
  from generation_last_min[OF g1] best_is_zero(3)[OF e(4) nn z1]
  have "last_min s1 = Some 0" by simp
  with g1 e(1,2) best_is_zero(1)[OF e(4) nn z1] show ?thesis by blast
qed

text \<open>
  C3, amended. The evaluation is never negative. When the population at the end of the
  last generation that ran (\<open>n\<close> generations were allowed) holds an individual of fitness
  0, the first member of the hall of fame has fitness 0; if \<open>n \<ge> 1\<close>, then \<^verbatim>\<open>last_min\<close> is 0
  and every run with more generations allowed ends in the very same state, so the run
  terminates at or before that generation. When the evaluated initial population holds
  such an individual and the stagnation threshold is not negative, every run with at
  least one generation allowed ends after generation 1: its logbook has the records of
  generations 0 and 1, and the first member of the hall of fame has fitness 0.
\<close>

theorem early_stop:
  assumes g0: "generation_0 pop tb cx mu (Some h) stk r = Inr (a, s0)"
    and e: "items h = []" and c: "cached_or_invalid (evaluate tb) pop"
    and ok: "toolbox_ok tb" and nn: "\<forall>g. 0 \<le> evaluate tb g"
    and gs: "generations a 1 n s0 = Inr s"
    and z: "\<exists>ind \<in> set (population s). fitness ind = Some 0"
  shows "fitness (hd (items (halloffame s))) = Some 0
       \<and> (0 < n \<longrightarrow> last_min s = Some 0 \<and> (\<forall>m \<ge> n. generations a 1 m s0 = Inr s))
       \<and> (n = 0 \<and> 0 \<le> fst stk \<longrightarrow>
            (\<forall>m > 0. \<exists>s1. generations a 1 m s0 = Inr s1
                \<and> map e_gen (logbook s1) = [0, 1] \<and> last_min s1 = Some 0
                \<and> fitness (hd (items (halloffame s1))) = Some 0))"
proof (intro conjI impI allI)
  have a: "toolbox a = tb" "stuck a = stk"
    by (subst generation_0_Some(1)[OF g0], simp)+
  have b: "boundary a s" by (rule run_boundary[OF g0 e c ok gs])
  from nn a(1) have nn': "\<forall>g. 0 \<le> evaluate (toolbox a) g" by simp
  from ok a(1) have ok': "toolbox_ok (toolbox a)" by simp
  show "fitness (hd (items (halloffame s))) = Some 0" by (rule best_is_zero(1)[OF b nn' z])
  {
    assume n: "0 < n"
    from generations_pos[OF gs n] best_is_zero(3)[OF b nn' z]
    show lm: "last_min s = Some 0" by simp
    fix m assume "n \<le> m"
    with generations_stop[OF gs n lm, of "m - n"] show "generations a 1 m s0 = Inr s" by simp
  }
  {
    fix m :: nat
    assume "n = 0 \<and> 0 \<le> fst stk" and m: "0 < m"
    then have n0: "n = 0" and th: "0 \<le> fst (stuck a)" using a(2) by simp_all
    from gs n0 have s: "s = s0" by simp
    from first_generation_zero[OF b[unfolded s] ok' nn' z[unfolded s]
        generation_0_Some(6)[OF g0] th, of 1]
    obtain s1 en where s1: "generation a 1 s0 = Inr s1" "logbook s1 = logbook s0 @ [en]"
      "e_gen en = 1" "last_min s1 = Some 0" "fitness (hd (items (halloffame s1))) = Some 0"
      by (elim exE conjE)
    have "map e_gen (logbook s0) = [0]" by (subst generation_0_Some(5)[OF g0]) simp
    with s1(2,3) have lg: "map e_gen (logbook s1) = [0, 1]" by simp
    from m obtain k where "m = Suc k" by (cases m) auto
    with s1(1,4) have gm: "generations a 1 m s0 = Inr s1" by simp
    show "\<exists>s1. generations a 1 m s0 = Inr s1
        \<and> map e_gen (logbook s1) = [0, 1] \<and> last_min s1 = Some 0
        \<and> fitness (hd (items (halloffame s1))) = Some 0"
      by (rule exI[of _ s1]) (intro conjI gm lg s1(4) s1(5))
  }
qed

theorem early_stop_witness:
  "\<exists>a s0 s1.
      generation_0 [\<lparr>genes = [3, 1], fitness = None\<rparr>, \<lparr>genes = [5, 1], fitness = None\<rparr>]
        (round_toolbox first_gene_5) (9 / 10) (1 / 5)
        (Some \<lparr>maxsize = 1, items = []\<rparr>) (50, Some ''chernobyl'') 0 = Inr (a, s0)
    \<and> fitness (hd (items (halloffame s0))) = Some 0
    \<and> generations a 1 10 s0 = Inr s1
    \<and> map e_gen (logbook s1) = [0, 1] \<and> last_min s1 = Some 0
    \<and> fitness (hd (items (halloffame s1))) = Some 0"
proof -
  let ?pop = "[\<lparr>genes = [3, 1], fitness = None\<rparr>, \<lparr>genes = [5, 1], fitness = None\<rparr>]"
  let ?g0 = "generation_0 ?pop (round_toolbox first_gene_5) (9 / 10) (1 / 5)
        (Some \<lparr>maxsize = 1, items = []\<rparr>) (50, Some ''chernobyl'') (0::nat)"
  let ?Q = "\<lambda>as. list_ex (\<lambda>ind. fitness ind = Some 0) (population (snd as))"
  have "case ?g0 of Inl x \<Rightarrow> False | Inr as \<Rightarrow> ?Q as"
    by code_simp
  then obtain as where f1: "?g0 = Inr as" and q: "?Q as"
    by (rule case_sum_FalseE)
  from f1 have f1': "?g0 = Inr (fst as, snd as)" by simp
  from q have z: "\<exists>ind \<in> set (population (snd as)). fitness ind = Some 0"
    by (simp add: list_ex_iff)
  have c: "cached_or_invalid (evaluate (round_toolbox first_gene_5)) ?pop"
    by (simp add: cached_or_invalid_def)
  have nn: "\<forall>g. 0 \<le> evaluate (round_toolbox first_gene_5) g"
    by (simp add: round_toolbox_def first_gene_5_def split: list.splits)
  have gs: "generations (fst as) 1 0 (snd as) = Inr (snd as)" by simp
  from early_stop[OF f1' _ c round_toolbox_ok nn gs z]
  have h: "fitness (hd (items (halloffame (snd as)))) = Some 0"
    and "\<forall>m > 0. \<exists>s1. generations (fst as) 1 m (snd as) = Inr s1
                \<and> map e_gen (logbook s1) = [0, 1] \<and> last_min s1 = Some 0
                \<and> fitness (hd (items (halloffame s1))) = Some 0"
    by simp_all
  then obtain s1 where s1: "generations (fst as) 1 10 (snd as) = Inr s1"
    "map e_gen (logbook s1) = [0, 1]" "last_min s1 = Some 0"
    "fitness (hd (items (halloffame s1))) = Some 0"
    by (metis zero_less_numeral)
  show ?thesis
    by (rule exI[of _ "fst as"], rule exI[of _ "snd as"], rule exI[of _ s1])
      (intro conjI f1' h s1)
qed

text \<open>
  C3 as stated fails in the scenario of the specification: an individual with first gene
  5 is in the initial population, ten generations are allowed, and the run goes through
  generation 1 before it stops; its logbook holds the records of generations 0 and 1.
\<close>

theorem early_stop_counterexample:
  "\<not> isl (eaSimpleWithElitism
            [\<lparr>genes = [3, 1], fitness = None\<rparr>, \<lparr>genes = [5, 1], fitness = None\<rparr>]
            (round_toolbox first_gene_5) (9 / 10) (1 / 5) 10
            (Some \<lparr>maxsize = 1, items = []\<rparr>) (50, Some ''chernobyl'') (0::nat))
   \<and> map e_gen (logbook (projr (eaSimpleWithElitism
            [\<lparr>genes = [3, 1], fitness = None\<rparr>, \<lparr>genes = [5, 1], fitness = None\<rparr>]
            (round_toolbox first_gene_5) (9 / 10) (1 / 5) 10
            (Some \<lparr>maxsize = 1, items = []\<rparr>) (50, Some ''chernobyl'') (0::nat)))) = [0, 1]
   \<and> e_nevals (last (logbook (projr (eaSimpleWithElitism
            [\<lparr>genes = [3, 1], fitness = None\<rparr>, \<lparr>genes = [5, 1], fitness = None\<rparr>]
            (round_toolbox first_gene_5) (9 / 10) (1 / 5) 10
            (Some \<lparr>maxsize = 1, items = []\<rparr>) (50, Some ''chernobyl'') (0::nat))))) = 0"
  by code_simp

lemma generation_length:
  assumes ok: "toolbox_ok (toolbox a)" and g: "generation a g s = Inr s'"
  obtains s2 shock pool where "next_pool a (decay a s) = (s2, shock)"
    "offspring s2 = Some pool"
    "length (population s') = length pool + length (items (halloffame s2))"
proof -
  from g obtain s2 shock pool varied r h m where
    np: "next_pool a (decay a s) = (s2, shock)"
    and p: "offspring s2 = Some pool"
    and va: "varAnd (toolbox a) pool (cxpb a) (mutpb s2) (rng s2) = (varied, r)"
    and pop': "population s' =
       fst (evaluate_invalid (evaluate (toolbox a)) varied) @ items (halloffame s2)"
    by (rule generation_cases) simp
  from ok va have "length varied = length pool"
    unfolding toolbox_ok_def by (metis fst_conv)
  with pop' have "length (population s') = length pool + length (items (halloffame s2))"
    by (simp add: length_evaluate_invalid)
  with np p that show ?thesis by blast
qed

lemma normal_length:
  assumes ok: "toolbox_ok (toolbox a)" and ne: "population s \<noteq> []"
    and g: "generation a g s = Inr s'" and nt: "\<not> triggered a (decay a s)"
  shows "length (population s') =
           nat (int (length (population s)) - int (hof_size a)) + length (items (halloffame s))"
proof -
  from ok g obtain s2 shock pool where np: "next_pool a (decay a s) = (s2, shock)"
    and p: "offspring s2 = Some pool"
    and len: "length (population s') = length pool + length (items (halloffame s2))"
    by (rule generation_length)
  from ok ne have sl: "length (fst (select (toolbox a) (population s)
      (int (length (population s)) - int (hof_size a)) (rng s)))
      = nat (int (length (population s)) - int (hof_size a))"
    unfolding toolbox_ok_def by blast
  from nt np p sl have "length pool = nat (int (length (population s)) - int (hof_size a))"
    by (cases rule: next_pool_cases[of a "decay a s"]) auto
  moreover from nt next_pool_fields(4)[OF np] have "halloffame s2 = halloffame s" by simp
  ultimately show ?thesis using len by simp
qed

lemma comet_length:
  assumes ok: "toolbox_ok (toolbox a)"
    and g: "generation a g s = Inr s'" and tr: "triggered a (decay a s)"
    and k: "snd (stuck a) = Some ''Comet Strike''"
  shows "offspring (fst (next_pool a (decay a s))) =
           Some (fst (populationCreator (toolbox a) (int (length (population s)) - 3) (rng s))
                 @ take 3 (items (halloffame s)))"
    "items (halloffame (fst (next_pool a (decay a s)))) = []"
    "length (fst (populationCreator (toolbox a) (int (length (population s)) - 3) (rng s)))
       = length (population s) - 3"
    "length (population s') =
       (length (population s) - 3) + min 3 (length (items (halloffame s)))"
proof -
  let ?fresh = "fst (populationCreator (toolbox a) (int (length (population s)) - 3) (rng s))"
  from ok g obtain s2 shock pool where np: "next_pool a (decay a s) = (s2, shock)"
    and p: "offspring s2 = Some pool"
    and len: "length (population s') = length pool + length (items (halloffame s2))"
    by (rule generation_length)
  from tr k np have s2: "s2 = (comet_strike a (decay a s))\<lparr>stuck_count := 0\<rparr>"
    by (cases rule: next_pool_cases[of a "decay a s"]) auto
  then have off: "offspring s2 = Some (?fresh @ take 3 (items (halloffame s)))"
    and hof: "items (halloffame s2) = []"
    by (simp_all add: comet_strike_def hof_clear_def split: prod.splits)
  from off np show "offspring (fst (next_pool a (decay a s))) =
           Some (?fresh @ take 3 (items (halloffame s)))" by simp
  from hof np show "items (halloffame (fst (next_pool a (decay a s)))) = []" by simp
  from ok have "length ?fresh = nat (int (length (population s)) - 3)"
    unfolding toolbox_ok_def by blast
  then show fl: "length ?fresh = length (population s) - 3" by simp
  from off p have "pool = ?fresh @ take 3 (items (halloffame s))" by simp
  with len hof fl show "length (population s') =
       (length (population s) - 3) + min 3 (length (items (halloffame s)))"
    by (simp add: min.commute)
qed

text \<open>
  C1, amended. At the end of a generation whose stagnation trigger does not fire, the
  population has \<open>max 0 (len - hof_size) + len(hall of fame)\<close> members; that is its
  previous length whenever the hall of fame holds exactly \<^verbatim>\<open>hof_size\<close> entries, the
  number read once after generation 0, and no more than the population. At the end of a
  Comet Strike generation it has \<open>(len - 3) + min 3 (len(hall of fame))\<close> members, its
  previous length whenever the population and the hall of fame hold at least 3.
\<close>

theorem population_length:
  assumes ok: "toolbox_ok (toolbox a)" and ne: "population s \<noteq> []"
    and g: "generation a g s = Inr s'"
  shows "(\<not> triggered a (decay a s) \<longrightarrow>
            length (population s') =
              nat (int (length (population s)) - int (hof_size a))
                + length (items (halloffame s))
          \<and> (length (items (halloffame s)) = hof_size a
               \<and> hof_size a \<le> length (population s) \<longrightarrow>
             length (population s') = length (population s)))
       \<and> (triggered a (decay a s) \<and> snd (stuck a) = Some ''Comet Strike'' \<longrightarrow>
            length (population s') =
              (length (population s) - 3) + min 3 (length (items (halloffame s)))
          \<and> (3 \<le> length (population s) \<and> 3 \<le> length (items (halloffame s)) \<longrightarrow>
             length (population s') = length (population s)))"
proof (intro conjI impI)
  assume nt: "\<not> triggered a (decay a s)"
  from normal_length[OF ok ne g nt]
  show n: "length (population s') =
      nat (int (length (population s)) - int (hof_size a)) + length (items (halloffame s))" .
  assume "length (items (halloffame s)) = hof_size a \<and> hof_size a \<le> length (population s)"
  with n show "length (population s') = length (population s)" by linarith
next
  assume "triggered a (decay a s) \<and> snd (stuck a) = Some ''Comet Strike''"
  then have tr: "triggered a (decay a s)" and k: "snd (stuck a) = Some ''Comet Strike''"
    by simp_all
  from comet_length(4)[OF ok g tr k]
  show c: "length (population s') =
      (length (population s) - 3) + min 3 (length (items (halloffame s)))" .
  assume "3 \<le> length (population s) \<and> 3 \<le> length (items (halloffame s))"
  with c show "length (population s') = length (population s)" by linarith
qed

theorem population_length_witness:
  "\<exists>a s0 s1 s3 s4.
      generation_0 (map created [5, 3, 7, 4]) (round_toolbox hd) (9 / 10) (1 / 5)
        (Some \<lparr>maxsize = 3, items = []\<rparr>) (1, Some ''Comet Strike'') 4 = Inr (a, s0)
    \<and> generation a 1 s0 = Inr s1 \<and> \<not> triggered a (decay a s0)
    \<and> length (population s1) = length (population s0)
    \<and> generations a 1 3 s0 = Inr s3 \<and> triggered a (decay a s3)
    \<and> generation a 4 s3 = Inr s4
    \<and> length (population s4) = length (population s3)"
proof -
  let ?g0 = "generation_0 (map created [5, 3, 7, 4]) (round_toolbox hd) (9 / 10) (1 / 5)
        (Some \<lparr>maxsize = 3, items = []\<rparr>) (1, Some ''Comet Strike'') (4::nat)"
  let ?Q4 = "\<lambda>a s3. case generation a 4 s3 of Inl x \<Rightarrow> False | Inr s4 \<Rightarrow> True"
  let ?Q3 = "\<lambda>a s0. case generations a 1 3 s0 of Inl x \<Rightarrow> False
       | Inr s3 \<Rightarrow> (triggered a (decay a s3) \<and> snd (stuck a) = Some ''Comet Strike''
           \<and> 3 \<le> length (population s3) \<and> 3 \<le> length (items (halloffame s3))
           \<and> population s3 \<noteq> []) \<and> ?Q4 a s3"
  let ?Q2 = "\<lambda>a s0. case generation a 1 s0 of Inl x \<Rightarrow> False | Inr s1 \<Rightarrow> True"
  let ?Q1 = "\<lambda>as. (\<not> triggered (fst as) (decay (fst as) (snd as))
        \<and> length (items (halloffame (snd as))) = hof_size (fst as)
        \<and> hof_size (fst as) \<le> length (population (snd as))
        \<and> population (snd as) \<noteq> [])
      \<and> ?Q2 (fst as) (snd as) \<and> ?Q3 (fst as) (snd as)"
  have "case ?g0 of Inl x \<Rightarrow> False | Inr as \<Rightarrow> ?Q1 as"
    by code_simp
  then obtain as where f1: "?g0 = Inr as" and q1: "?Q1 as"
    by (rule case_sum_FalseE)
  from f1 have f1': "?g0 = Inr (fst as, snd as)" by simp
  from f1' have tb: "toolbox (fst as) = round_toolbox hd"
    by (subst generation_0_Some(1)[OF f1']) simp
  have ok: "toolbox_ok (toolbox (fst as))" unfolding tb by (rule round_toolbox_ok)
  from q1 have h0: "\<not> triggered (fst as) (decay (fst as) (snd as))"
    "length (items (halloffame (snd as))) = hof_size (fst as)"
    "hof_size (fst as) \<le> length (population (snd as))" "population (snd as) \<noteq> []"
    and q2: "?Q2 (fst as) (snd as)" and q3: "?Q3 (fst as) (snd as)"
    by blast+
  from q2 obtain s1 where f2: "generation (fst as) 1 (snd as) = Inr s1"
    by (rule case_sum_FalseE)
  from q3 obtain s3 where f3: "generations (fst as) 1 3 (snd as) = Inr s3"
    and q3': "(triggered (fst as) (decay (fst as) s3)
           \<and> snd (stuck (fst as)) = Some ''Comet Strike''
           \<and> 3 \<le> length (population s3) \<and> 3 \<le> length (items (halloffame s3))
           \<and> population s3 \<noteq> []) \<and> ?Q4 (fst as) s3"
    by (rule case_sum_FalseE)
  from q3' obtain s4 where f4: "generation (fst as) 4 s3 = Inr s4"
    by (elim conjE case_sum_FalseE)
  from population_length[OF ok h0(4) f2] h0
  have l1: "length (population s1) = length (population (snd as))" by simp
  from q3' have ne3: "population s3 \<noteq> []" by simp
  from population_length[OF ok ne3 f4] q3'
  have l4: "length (population s4) = length (population s3)" by simp
  from q3' have tr: "triggered (fst as) (decay (fst as) s3)" by simp
  show ?thesis
    by (rule exI[of _ "fst as"], rule exI[of _ "snd as"], rule exI[of _ s1],
        rule exI[of _ s3], rule exI[of _ s4])
      (intro conjI f1' f2 h0(1) l1 f3 tr f4 l4)
qed

text \<open>
  C1 as stated fails: four individuals, a hall of fame of capacity 1, a Comet Strike after
  more than one stagnating generation. The strike of generation 4 builds the pool from
  one new individual and the one archived member, and the run ends with two individuals.
\<close>

theorem population_length_counterexample:
  "\<not> isl (eaSimpleWithElitism (map created [0, 1, 2, 3]) (round_toolbox (\<lambda>g. 1)) (9 / 10) (1 / 5) 4
            (Some \<lparr>maxsize = 1, items = []\<rparr>) (1, Some ''Comet Strike'') (4::nat))
   \<and> length (map created [0, 1, 2, 3]) = 4
   \<and> length (population (projr
          (eaSimpleWithElitism (map created [0, 1, 2, 3]) (round_toolbox (\<lambda>g. 1)) (9 / 10) (1 / 5) 4
            (Some \<lparr>maxsize = 1, items = []\<rparr>) (1, Some ''Comet Strike'') (4::nat)))) = 2"
  by code_simp

text \<open>
  C10, amended. A Comet Strike builds the pool from the \<open>len(population) - 3\<close> new
  individuals of the generator, none when the population has fewer than 3, followed by
  the first \<open>min 3 (len(hall of fame))\<close> archived members; the 3 is a literal, not
  \<^verbatim>\<open>hof_size\<close>. The hall of fame is then empty, so nothing is appended after variation:
  when the population holds at least 3 individuals and the hall of fame fewer than 3
  entries, the population at the end of that generation is shorter by the missing ones.
\<close>

theorem comet_strike_pool:
  assumes ok: "toolbox_ok (toolbox a)"
    and g: "generation a g s = Inr s'" and tr: "triggered a (decay a s)"
    and k: "snd (stuck a) = Some ''Comet Strike''"
  shows "offspring (fst (next_pool a (decay a s))) =
           Some (fst (populationCreator (toolbox a) (int (length (population s)) - 3) (rng s))
                 @ take 3 (items (halloffame s)))
       \<and> length (fst (populationCreator (toolbox a) (int (length (population s)) - 3) (rng s)))
           = length (population s) - 3
       \<and> length (take 3 (items (halloffame s))) = min 3 (length (items (halloffame s)))
       \<and> items (halloffame (fst (next_pool a (decay a s)))) = []
       \<and> length (population s') =
           (length (population s) - 3) + min 3 (length (items (halloffame s)))
       \<and> (3 \<le> length (population s) \<and> length (items (halloffame s)) < 3 \<longrightarrow>
            length (population s') + (3 - length (items (halloffame s))) = length (population s)
          \<and> length (population s') < length (population s))"
proof -
  note c = comet_length[OF ok g tr k]
  have "3 \<le> length (population s) \<and> length (items (halloffame s)) < 3 \<longrightarrow>
      length (population s') + (3 - length (items (halloffame s))) = length (population s)
      \<and> length (population s') < length (population s)"
    using c(4) by auto
  with c show ?thesis by (simp add: min.commute)
qed

theorem comet_strike_pool_witness:
  "\<exists>a s0 s3 s4.
      generation_0 (map created [5, 3, 7, 4]) (round_toolbox hd) (9 / 10) (1 / 5)
        (Some \<lparr>maxsize = 2, items = []\<rparr>) (1, Some ''Comet Strike'') 4 = Inr (a, s0)
    \<and> generations a 1 3 s0 = Inr s3 \<and> triggered a (decay a s3)
    \<and> generation a 4 s3 = Inr s4
    \<and> length (items (halloffame s3)) < 3
    \<and> length (population s4) < length (population s3)"
proof -
  let ?g0 = "generation_0 (map created [5, 3, 7, 4]) (round_toolbox hd) (9 / 10) (1 / 5)
        (Some \<lparr>maxsize = 2, items = []\<rparr>) (1, Some ''Comet Strike'') (4::nat)"
  let ?Q4 = "\<lambda>a s3. case generation a 4 s3 of Inl x \<Rightarrow> False | Inr s4 \<Rightarrow> True"
  let ?Q3 = "\<lambda>as. case generations (fst as) 1 3 (snd as) of Inl x \<Rightarrow> False
       | Inr s3 \<Rightarrow> (triggered (fst as) (decay (fst as) s3)
           \<and> snd (stuck (fst as)) = Some ''Comet Strike''
           \<and> 3 \<le> length (population s3) \<and> length (items (halloffame s3)) < 3)
           \<and> ?Q4 (fst as) s3"
  have "case ?g0 of Inl x \<Rightarrow> False | Inr as \<Rightarrow> ?Q3 as"
    by code_simp
  then obtain as where f1: "?g0 = Inr as" and q3: "?Q3 as"
    by (rule case_sum_FalseE)
  from f1 have f1': "?g0 = Inr (fst as, snd as)" by simp
  from f1' have tb: "toolbox (fst as) = round_toolbox hd"
    by (subst generation_0_Some(1)[OF f1']) simp
  have ok: "toolbox_ok (toolbox (fst as))" unfolding tb by (rule round_toolbox_ok)
  from q3 obtain s3 where f3: "generations (fst as) 1 3 (snd as) = Inr s3"
    and q3': "(triggered (fst as) (decay (fst as) s3)
           \<and> snd (stuck (fst as)) = Some ''Comet Strike''
           \<and> 3 \<le> length (population s3) \<and> length (items (halloffame s3)) < 3)
           \<and> ?Q4 (fst as) s3"
    by (rule case_sum_FalseE)
  from q3' obtain s4 where f4: "generation (fst as) 4 s3 = Inr s4"
    by (elim conjE case_sum_FalseE)
  from q3' have tr: "triggered (fst as) (decay (fst as) s3)"
    and k: "snd (stuck (fst as)) = Some ''Comet Strike''"
    and h: "3 \<le> length (population s3)" "length (items (halloffame s3)) < 3"
    by simp_all
  from comet_strike_pool[OF ok f4 tr k] h
  have l4: "length (population s4) < length (population s3)" by simp
  show ?thesis
    by (rule exI[of _ "fst as"], rule exI[of _ "snd as"], rule exI[of _ s3], rule exI[of _ s4])
      (intro conjI f1' f3 tr f4 h(2) l4)
qed

text \<open>
  C10 as stated fails for a population of one individual: with one archived member,
  fewer than 3, the strike of generation 4 asks the generator for \<open>1 - 3\<close> individuals,
  gets none, takes the archived member, and the population keeps its length of 1.
\<close>

theorem comet_strike_pool_counterexample:
  "\<not> isl (eaSimpleWithElitism (map created [0]) (round_toolbox (\<lambda>g. 1)) (9 / 10) (1 / 5) 3
            (Some \<lparr>maxsize = 1, items = []\<rparr>) (1, Some ''Comet Strike'') (4::nat))
   \<and> length (population (projr
          (eaSimpleWithElitism (map created [0]) (round_toolbox (\<lambda>g. 1)) (9 / 10) (1 / 5) 3
            (Some \<lparr>maxsize = 1, items = []\<rparr>) (1, Some ''Comet Strike'') (4::nat)))) = 1
   \<and> length (items (halloffame (projr
          (eaSimpleWithElitism (map created [0]) (round_toolbox (\<lambda>g. 1)) (9 / 10) (1 / 5) 3
            (Some \<lparr>maxsize = 1, items = []\<rparr>) (1, Some ''Comet Strike'') (4::nat))))) = 1
   \<and> \<not> isl (eaSimpleWithElitism (map created [0]) (round_toolbox (\<lambda>g. 1)) (9 / 10) (1 / 5) 4
            (Some \<lparr>maxsize = 1, items = []\<rparr>) (1, Some ''Comet Strike'') (4::nat))
   \<and> e_shock_event (last (logbook (projr
          (eaSimpleWithElitism (map created [0]) (round_toolbox (\<lambda>g. 1)) (9 / 10) (1 / 5) 4
            (Some \<lparr>maxsize = 1, items = []\<rparr>) (1, Some ''Comet Strike'') (4::nat)))))
       = Some ''Comet Strike''
   \<and> length (population (projr
          (eaSimpleWithElitism (map created [0]) (round_toolbox (\<lambda>g. 1)) (9 / 10) (1 / 5) 4
            (Some \<lparr>maxsize = 1, items = []\<rparr>) (1, Some ''Comet Strike'') (4::nat)))) = 1"
  by code_simp

text \<open>
  C2, amended. When the stagnation trigger fires, the kind Comet Strike dispatches the
  Comet Strike alone (the mutation probability and the radiation counter stay), the kind
  Radiation Leak dispatches the Radiation Leak alone (the population, the pool and the
  hall of fame stay), and any other kind, such as the \<^verbatim>\<open>'chernobyl'\<close> of ga_solver.py or
  the default \<^verbatim>\<open>None\<close>, dispatches none of the two: the label of the generation is empty
  and only the counter is reset.
\<close>

theorem shock_dispatch:
  assumes tr: "triggered a s"
  shows "(snd (stuck a) = Some ''Comet Strike'' \<longrightarrow>
            next_pool a s = ((comet_strike a s)\<lparr>stuck_count := 0\<rparr>, ''Comet Strike'')
          \<and> mutpb (comet_strike a s) = mutpb s \<and> radiation (comet_strike a s) = radiation s
          \<and> items (halloffame (comet_strike a s)) = [])
       \<and> (snd (stuck a) = Some ''Radiation Leak'' \<longrightarrow>
            next_pool a s = ((radiation_leak a s)\<lparr>stuck_count := 0\<rparr>, ''Radiation Leak'')
          \<and> radiation_leak a s = s\<lparr>mutpb := 1 / 2, radiation := fst (stuck a)\<rparr>)
       \<and> (snd (stuck a) \<noteq> Some ''Comet Strike'' \<and> snd (stuck a) \<noteq> Some ''Radiation Leak'' \<longrightarrow>
            next_pool a s = (s\<lparr>stuck_count := 0\<rparr>, ''''))"
  using tr
  by (cases rule: next_pool_cases[of a s])
     (auto simp: comet_strike_def radiation_leak_def hof_clear_def split: prod.splits)

theorem shock_dispatch_witness:
  "\<exists>a s0 s3.
      generation_0 (map created [5, 3, 7, 4]) (round_toolbox hd) (9 / 10) (1 / 5)
        (Some \<lparr>maxsize = 2, items = []\<rparr>) (1, Some ''Radiation Leak'') 4 = Inr (a, s0)
    \<and> generations a 1 3 s0 = Inr s3 \<and> triggered a (decay a s3)
    \<and> snd (next_pool a (decay a s3)) = ''Radiation Leak''
    \<and> mutpb (fst (next_pool a (decay a s3))) = 1 / 2
    \<and> radiation (fst (next_pool a (decay a s3))) = 1
    \<and> halloffame (fst (next_pool a (decay a s3))) = halloffame s3"
proof -
  let ?g0 = "generation_0 (map created [5, 3, 7, 4]) (round_toolbox hd) (9 / 10) (1 / 5)
        (Some \<lparr>maxsize = 2, items = []\<rparr>) (1, Some ''Radiation Leak'') (4::nat)"
  let ?Q3 = "\<lambda>as. case generations (fst as) 1 3 (snd as) of Inl x \<Rightarrow> False
       | Inr s3 \<Rightarrow> triggered (fst as) (decay (fst as) s3)"
  have "case ?g0 of Inl x \<Rightarrow> False | Inr as \<Rightarrow> ?Q3 as"
    by code_simp
  then obtain as where f1: "?g0 = Inr as" and q3: "?Q3 as"
    by (rule case_sum_FalseE)
  from f1 have f1': "?g0 = Inr (fst as, snd as)" by simp
  have st: "stuck (fst as) = (1, Some ''Radiation Leak'')"
    by (subst generation_0_Some(1)[OF f1']) simp
  from q3 obtain s3 where f3: "generations (fst as) 1 3 (snd as) = Inr s3"
    and tr: "triggered (fst as) (decay (fst as) s3)"
    by (rule case_sum_FalseE)
  from shock_dispatch[OF tr] st
  have np: "next_pool (fst as) (decay (fst as) s3) =
      ((radiation_leak (fst as) (decay (fst as) s3))\<lparr>stuck_count := 0\<rparr>, ''Radiation Leak'')"
    by simp
  have c: "snd (next_pool (fst as) (decay (fst as) s3)) = ''Radiation Leak''"
    "mutpb (fst (next_pool (fst as) (decay (fst as) s3))) = 1 / 2"
    "radiation (fst (next_pool (fst as) (decay (fst as) s3))) = 1"
    "halloffame (fst (next_pool (fst as) (decay (fst as) s3))) = halloffame s3"
    unfolding np by (simp_all add: radiation_leak_def st)
  show ?thesis
    by (rule exI[of _ "fst as"], rule exI[of _ "snd as"], rule exI[of _ s3])
      (intro conjI f1' f3 tr c)
qed

text \<open>
  C2 as stated fails for the kind that ga_solver.py configures. With \<^verbatim>\<open>'chernobyl'\<close> and
  a threshold of 1, the counter stands at 2 after generation 3 and the radiation at 0, so
  the trigger of generation 4 fires; the generation is recorded with an empty shock
  event, the mutation probability is still the configured one and the radiation still
  0: neither event was dispatched.
\<close>

theorem shock_dispatch_counterexample:
  "\<not> isl (eaSimpleWithElitism (map created [5, 3, 7, 4]) (round_toolbox hd) (9 / 10) (1 / 5) 3
            (Some \<lparr>maxsize = 2, items = []\<rparr>) (1, Some ''chernobyl'') (4::nat))
   \<and> stuck_count (projr
          (eaSimpleWithElitism (map created [5, 3, 7, 4]) (round_toolbox hd) (9 / 10) (1 / 5) 3
            (Some \<lparr>maxsize = 2, items = []\<rparr>) (1, Some ''chernobyl'') (4::nat))) = 2
   \<and> radiation (projr
          (eaSimpleWithElitism (map created [5, 3, 7, 4]) (round_toolbox hd) (9 / 10) (1 / 5) 3
            (Some \<lparr>maxsize = 2, items = []\<rparr>) (1, Some ''chernobyl'') (4::nat))) = 0
   \<and> \<not> isl (eaSimpleWithElitism (map created [5, 3, 7, 4]) (round_toolbox hd) (9 / 10) (1 / 5) 4
            (Some \<lparr>maxsize = 2, items = []\<rparr>) (1, Some ''chernobyl'') (4::nat))
   \<and> map e_gen (logbook (projr
          (eaSimpleWithElitism (map created [5, 3, 7, 4]) (round_toolbox hd) (9 / 10) (1 / 5) 4
            (Some \<lparr>maxsize = 2, items = []\<rparr>) (1, Some ''chernobyl'') (4::nat)))) = [0, 1, 2, 3, 4]
   \<and> e_shock_event (last (logbook (projr
          (eaSimpleWithElitism (map created [5, 3, 7, 4]) (round_toolbox hd) (9 / 10) (1 / 5) 4
            (Some \<lparr>maxsize = 2, items = []\<rparr>) (1, Some ''chernobyl'') (4::nat))))) = Some ''''
   \<and> mutpb (projr
          (eaSimpleWithElitism (map created [5, 3, 7, 4]) (round_toolbox hd) (9 / 10) (1 / 5) 4
            (Some \<lparr>maxsize = 2, items = []\<rparr>) (1, Some ''chernobyl'') (4::nat))) = 1 / 5
   \<and> radiation (projr
          (eaSimpleWithElitism (map created [5, 3, 7, 4]) (round_toolbox hd) (9 / 10) (1 / 5) 4
            (Some \<lparr>maxsize = 2, items = []\<rparr>) (1, Some ''chernobyl'') (4::nat))) = 0
   \<and> stuck_count (projr
          (eaSimpleWithElitism (map created [5, 3, 7, 4]) (round_toolbox hd) (9 / 10) (1 / 5) 4
            (Some \<lparr>maxsize = 2, items = []\<rparr>) (1, Some ''chernobyl'') (4::nat))) = 1"
  by code_simp

lemma evaluate_invalid_valid:
  "\<not> list_ex (\<lambda>ind. fitness ind = None) (fst (evaluate_invalid ev xs))"
  by (auto simp: evaluate_invalid_def list_ex_iff)

text \<open>
  C4, amended. When the hall of fame is missing (\<^verbatim>\<open>None\<close>), the engine raises ValueError
  before any update of a hall of fame, any record and any generation, but after it has
  evaluated the individuals of the population that had no valid fitness: the caller
  finds them evaluated. An empty hall of fame is not missing: when its capacity is not 0
  and the population is not empty, generation 0 completes without raising, with the
  population evaluated, the hall of fame filled and one record, and the loop is entered;
  with no generation allowed the run returns that state.
\<close>

theorem missing_hall_of_fame:
  "eaSimpleWithElitism pop tb cx mu ngen None stk r =
     Inl (ValueError, fst (evaluate_invalid (evaluate tb) pop))
   \<and> (items h = [] \<and> maxsize h \<noteq> 0 \<and> pop \<noteq> [] \<longrightarrow>
        (\<exists>a s0. generation_0 pop tb cx mu (Some h) stk r = Inr (a, s0)
           \<and> population s0 = fst (evaluate_invalid (evaluate tb) pop)
           \<and> items (halloffame s0) \<noteq> [] \<and> length (logbook s0) = 1
           \<and> eaSimpleWithElitism pop tb cx mu ngen (Some h) stk r
                = generations a 1 (nat ngen) s0
           \<and> eaSimpleWithElitism pop tb cx mu 0 (Some h) stk r = Inr s0))"
proof (intro conjI impI)
  show "eaSimpleWithElitism pop tb cx mu ngen None stk r =
     Inl (ValueError, fst (evaluate_invalid (evaluate tb) pop))"
    by (simp add: eaSimpleWithElitism_def generation_0_def split: prod.splits)
next
  assume p: "items h = [] \<and> maxsize h \<noteq> 0 \<and> pop \<noteq> []"
  obtain pop0 n where ei: "evaluate_invalid (evaluate tb) pop = (pop0, n)"
    by (cases "evaluate_invalid (evaluate tb) pop")
  then have fp: "fst (evaluate_invalid (evaluate tb) pop) = pop0" by simp
  from p fp have ne: "pop0 \<noteq> []" by (auto simp: evaluate_invalid_def)
  from p have "items h \<noteq> [] \<or> maxsize h \<noteq> 0" by simp
  from hof_update_returns[OF this, of pop0] obtain h0 where
    up: "hof_update h pop0 = Inr h0" by blast
  from hof_update_nonempty[OF up ne] have hne: "items h0 \<noteq> []" .
  have "\<not> list_ex (\<lambda>ind. fitness ind = None) pop0"
    using evaluate_invalid_valid[of "evaluate tb" pop] by (simp add: fp)
  with ne have cm: "compile_min pop0 = Inr (min_list (map (\<lambda>ind. the (fitness ind)) pop0))"
    by (simp add: compile_min_def)
  have "\<exists>a s0. generation_0 pop tb cx mu (Some h) stk r = Inr (a, s0)"
    by (simp add: generation_0_def ei up cm)
  then obtain a s0 where g0: "generation_0 pop tb cx mu (Some h) stk r = Inr (a, s0)"
    by (elim exE)
  note f = generation_0_Some[OF g0]
  from f(3) up have h0: "halloffame s0 = h0" by (simp add: f(2) fp)
  have l: "length (logbook s0) = 1" by (subst f(5)) simp
  have r1: "eaSimpleWithElitism pop tb cx mu ngen (Some h) stk r = generations a 1 (nat ngen) s0"
    by (simp add: eaSimpleWithElitism_def g0)
  have r0: "eaSimpleWithElitism pop tb cx mu 0 (Some h) stk r = Inr s0"
    by (simp add: eaSimpleWithElitism_def g0)
  from hne h0 have hne': "items (halloffame s0) \<noteq> []" by simp
  show "\<exists>a s0. generation_0 pop tb cx mu (Some h) stk r = Inr (a, s0)
           \<and> population s0 = fst (evaluate_invalid (evaluate tb) pop)
           \<and> items (halloffame s0) \<noteq> [] \<and> length (logbook s0) = 1
           \<and> eaSimpleWithElitism pop tb cx mu ngen (Some h) stk r
                = generations a 1 (nat ngen) s0
           \<and> eaSimpleWithElitism pop tb cx mu 0 (Some h) stk r = Inr s0"
    by (rule exI[of _ a], rule exI[of _ s0]) (intro conjI g0 f(2) hne' l r1 r0)
qed

theorem missing_hall_of_fame_witness:
  "\<exists>a s0. generation_0 [\<lparr>genes = [5, 1], fitness = None\<rparr>] (round_toolbox first_gene_5)
       (9 / 10) (1 / 5) (Some \<lparr>maxsize = 1, items = []\<rparr>) (50, Some ''chernobyl'') (0::nat)
       = Inr (a, s0)
     \<and> items (halloffame s0) \<noteq> []
     \<and> eaSimpleWithElitism [\<lparr>genes = [5, 1], fitness = None\<rparr>] (round_toolbox first_gene_5)
       (9 / 10) (1 / 5) 0 (Some \<lparr>maxsize = 1, items = []\<rparr>) (50, Some ''chernobyl'') (0::nat)
       = Inr s0"
proof -
  let ?pop = "[\<lparr>genes = [5, 1], fitness = None\<rparr>]"
  let ?h = "\<lparr>maxsize = 1, items = []\<rparr>"
  have p: "items ?h = [] \<and> maxsize ?h \<noteq> 0 \<and> ?pop \<noteq> []" by simp
  have "items ?h = [] \<and> maxsize ?h \<noteq> 0 \<and> ?pop \<noteq> [] \<longrightarrow>
      (\<exists>a s0. generation_0 ?pop (round_toolbox first_gene_5) (9 / 10) (1 / 5) (Some ?h)
             (50, Some ''chernobyl'') (0::nat) = Inr (a, s0)
         \<and> population s0 = fst (evaluate_invalid (evaluate (round_toolbox first_gene_5)) ?pop)
         \<and> items (halloffame s0) \<noteq> [] \<and> length (logbook s0) = 1
         \<and> eaSimpleWithElitism ?pop (round_toolbox first_gene_5) (9 / 10) (1 / 5) 10 (Some ?h)
               (50, Some ''chernobyl'') (0::nat) = generations a 1 (nat 10) s0
         \<and> eaSimpleWithElitism ?pop (round_toolbox first_gene_5) (9 / 10) (1 / 5) 0 (Some ?h)
               (50, Some ''chernobyl'') (0::nat) = Inr s0)"
    by (rule missing_hall_of_fame[THEN conjunct2])
  from mp[OF this p]
  obtain a s0 where f: "generation_0 ?pop (round_toolbox first_gene_5)
       (9 / 10) (1 / 5) (Some ?h) (50, Some ''chernobyl'') (0::nat) = Inr (a, s0)"
    "population s0 = fst (evaluate_invalid (evaluate (round_toolbox first_gene_5)) ?pop)"
    "items (halloffame s0) \<noteq> []" "length (logbook s0) = 1"
    "eaSimpleWithElitism ?pop (round_toolbox first_gene_5) (9 / 10) (1 / 5) 10 (Some ?h)
       (50, Some ''chernobyl'') (0::nat) = generations a 1 (nat 10) s0"
    "eaSimpleWithElitism ?pop (round_toolbox first_gene_5)
       (9 / 10) (1 / 5) 0 (Some ?h) (50, Some ''chernobyl'') (0::nat) = Inr s0"
    by (elim exE conjE)
  show ?thesis
    by (rule exI[of _ a], rule exI[of _ s0]) (intro conjI f(1) f(3) f(6))
qed

text \<open>
  C4 as stated fails twice. Without a hall of fame the engine raises only after the
  evaluation: the individual with the invalid fitness comes back with the fitness 0. With
  an empty hall of fame, the one that every run of ga_solver.py starts from, it does not
  raise at all.
\<close>

theorem missing_hall_of_fame_counterexample:
  "eaSimpleWithElitism [\<lparr>genes = [5, 1], fitness = None\<rparr>] (round_toolbox first_gene_5)
       (9 / 10) (1 / 5) 10 None (50, Some ''chernobyl'') (0::nat)
     = Inl (ValueError, [\<lparr>genes = [5, 1], fitness = Some 0\<rparr>])
   \<and> \<not> isl (eaSimpleWithElitism [\<lparr>genes = [5, 1], fitness = None\<rparr>] (round_toolbox first_gene_5)
       (9 / 10) (1 / 5) 10 (Some \<lparr>maxsize = 1, items = []\<rparr>) (50, Some ''chernobyl'') (0::nat))"
  by code_simp

text \<open>
  On a solver that has not run before, \<^verbatim>\<open>solved\<close> is true after the call exactly when
  the first member of the hall of fame has fitness 0.
\<close>

lemma ga_solve_fresh:
  assumes "ga_solve tb dec self r = Inr (self', s)" "\<not> solved self"
  shows "solved self' \<longleftrightarrow> fitness (hd (items (halloffame s))) = Some 0"
  using assms
  by (auto simp: ga_solve_def Let_def split: prod.splits sum.splits list.splits option.splits if_splits)

text \<open>
  C8 fails on a solver that runs twice, because line 120 of ga_solver.py assigns
  \<^verbatim>\<open>solvable\<close> where \<^verbatim>\<open>solved\<close> is meant. The first call creates the individual with
  first gene 5 and solves; the second call, from the state in which the first left the
  random generator, creates another individual and ends with a best fitness of 1, the
  callback is told \<^verbatim>\<open>False\<close>, and \<^verbatim>\<open>solved\<close> is still true.
\<close>

theorem ga_solve_stale_solved:
  "\<not> isl first_call \<and> solved (fst (projr first_call))
   \<and> fitness (hd (items (halloffame (snd (projr first_call))))) = Some 0
   \<and> \<not> isl second_call \<and> solved (fst (projr second_call))
   \<and> fitness (hd (items (halloffame (snd (projr second_call))))) = Some 1
   \<and> solvable (fst (projr second_call)) = Some False
   \<and> final_calls (fst (projr second_call)) = [(True, Some [5]), (False, None)]"
  by code_simp

end
